theory Spec2Isabelle
  imports Complex_Main
begin

section \<open>The LoadingManager of src/script.js (lines 806--969)\<close>

text \<open>
  The class counts the settlement of the page's images, stylesheets and the fonts-ready
  promise, reports a percentage after each settlement and opens the page once, either
  500 ms after the last settlement or when the 5000 ms fallback timer runs.

  The embedding is a state record for the object together with the part of the browser
  the class talks to: the clock, the queue of pending \<open>setTimeout\<close> callbacks, the event
  targets that carry the \<open>onload\<close>/\<open>onerror\<close> handlers and the reaction registered on
  \<open>document.fonts.ready\<close>.  Every method is a function from state to state; the closures
  the class creates are the constructors of \<open>callback\<close>, interpreted by \<open>call\<close>.

  JavaScript numbers are IEEE doubles.  The only arithmetic of the class is
  \<open>(loadedCount / totalCount) * 100\<close> and \<open>(progress / 100) * 3\<close>; it is modelled with
  exact rationals, extended by the two special values a division by zero produces.
\<close>

subsection \<open>Numbers\<close>

datatype jsnum = Finite rat | PosInf | NaN

text \<open>\<open>a / b\<close> for two counters (non-negative integers): \<open>0 / 0\<close> is NaN and \<open>a / 0\<close> is
  Infinity for positive \<open>a\<close>; nothing is thrown.  For \<open>b > 0\<close> the model keeps the exact
  quotient, where the code holds the double nearest to it.  Rounding to nearest keeps the
  order of two values, the bounds 0, 1 and 100 and finiteness, which is what the theorems
  below are about; where a theorem shows a quotient, it is the exact one of this model.\<close>

definition js_quot :: "nat \<Rightarrow> nat \<Rightarrow> jsnum" where
  "js_quot a b =
     (if b = 0 then (if a = 0 then NaN else PosInf) else Finite (rat_of_nat a / rat_of_nat b))"

text \<open>Multiplication by a positive finite constant \<open>c\<close> (\<open>* 100\<close>, \<open>/ 100\<close>, \<open>* 3\<close>), exact
  in the same way.\<close>

fun js_scale :: "rat \<Rightarrow> jsnum \<Rightarrow> jsnum" where
  "js_scale c (Finite q) = Finite (c * q)"
| "js_scale c PosInf = PosInf"
| "js_scale c NaN = NaN"

text \<open>\<open>Math.floor\<close>.\<close>

fun js_floor :: "jsnum \<Rightarrow> jsnum" where
  "js_floor (Finite q) = Finite (rat_of_int \<lfloor>q\<rfloor>)"
| "js_floor PosInf = PosInf"
| "js_floor NaN = NaN"

text \<open>\<open>xs[v]\<close> on an array: defined exactly for an integral index within bounds,
  \<open>undefined\<close> (here \<open>None\<close>) otherwise.\<close>

fun js_index :: "string list \<Rightarrow> jsnum \<Rightarrow> string option" where
  "js_index xs (Finite q) =
     (if rat_of_int \<lfloor>q\<rfloor> = q \<and> 0 \<le> q \<and> \<lfloor>q\<rfloor> < int (length xs)
      then Some (xs ! nat \<lfloor>q\<rfloor>) else None)"
| "js_index xs PosInf = None"
| "js_index xs NaN = None"

text \<open>\<open>a || b\<close> on strings: \<open>undefined\<close> and the empty string are falsy.\<close>

fun js_or :: "string option \<Rightarrow> string \<Rightarrow> string" where
  "js_or None b = b"
| "js_or (Some a) b = (if a = [] then b else a)"

subsection \<open>Data\<close>

text \<open>A resource descriptor, tagged by its \<open>type\<close> field.  An image and a stylesheet carry
  their URL; of the stylesheet's \<open>element\<close> the class reads only whether \<open>link.sheet\<close> is
  set, which is the boolean.\<close>

datatype resource = Image string | Stylesheet string bool | Fonts

text \<open>The document as the class queries it.\<close>

record page =
  hasLoadingScreen :: bool
  hasProgressBar :: bool
  hasLoadingText :: bool
  imgs :: "string list"
  links :: "(string \<times> bool) list"
  hasFonts :: bool
  heroes :: nat

text \<open>The closures of the class.
  \<^item> \<open>Loaded\<close>: \<open>() => this.onResourceLoaded()\<close> (lines 847, 890, 891, 900, 901);
  \<^item> \<open>Fallback\<close>: the body of the timer of line 867;
  \<^item> \<open>Grace\<close>: \<open>() => this.completeLoading()\<close> (line 912);
  \<^item> \<open>Hide\<close>: the body of the timer of line 939;
  \<^item> \<open>Reveal i\<close>: the body of the timer of line 963 for hero element \<open>i\<close>.\<close>

datatype callback = Loaded | Fallback | Grace | Hide | Reveal nat

text \<open>An event target with the two handlers the class assigns; \<open>delivered\<close> is set once
  the browser has dispatched the target's load or error event.\<close>

record target =
  onload :: "callback option"
  onerror :: "callback option"
  delivered :: bool

record lm =
  doc :: page
  loadingScreen :: bool
  progressBar :: bool
  loadingText :: bool
  resources :: "resource list"
  loadedCount :: nat
  totalCount :: nat
  isComplete :: bool
  barWidth :: "jsnum option"
  statusText :: "string option"
  screenFaded :: bool
  screenHidden :: bool
  bodyLoaded :: bool
  revealed :: "nat list"
  now :: nat
  timers :: "(nat \<times> callback) list"
  targets :: "target list"
  fontsThen :: "callback option"
  sinkCalls :: "jsnum list"
  hookAt :: "nat list"
  readyAt :: "nat option"
  fallbackForced :: bool
  lastSettled :: nat

text \<open>
  The fields from \<open>doc\<close> to \<open>isComplete\<close> are the object's own; \<open>isComplete\<close> is never
  assigned by the constructor, so it starts as \<open>undefined\<close>, which every test of the class
  treats as false.  \<open>barWidth\<close> to \<open>revealed\<close> are the writes to the page.  \<open>now\<close> (in ms
  since construction), \<open>timers\<close> (due time and callback, in order of registration),
  \<open>targets\<close> and \<open>fontsThen\<close> are the browser.  The last five fields only record what
  happened and are never read by the code: the percentages passed to \<open>updateProgress\<close>, the
  times at which \<open>onLoadingComplete\<close> ran, the time at which \<open>isComplete\<close> was set, whether
  the fallback timer was the one that set it, and the time of the latest call of
  \<open>onResourceLoaded\<close>.
\<close>

subsection \<open>Methods\<close>

definition setTimeout :: "callback \<Rightarrow> nat \<Rightarrow> lm \<Rightarrow> lm" where
  "setTimeout cb d s = s\<lparr>timers := timers s @ [(now s + d, cb)]\<rparr>"

definition new_lm :: "page \<Rightarrow> lm" where
  "new_lm p =
     \<lparr>doc = p, loadingScreen = hasLoadingScreen p, progressBar = hasProgressBar p,
      loadingText = hasLoadingText p, resources = [], loadedCount = 0, totalCount = 0,
      isComplete = False, barWidth = None, statusText = None, screenFaded = False,
      screenHidden = False, bodyLoaded = False, revealed = [], now = 0, timers = [],
      targets = [], fontsThen = None, sinkCalls = [], hookAt = [], readyAt = None,
      fallbackForced = False, lastSettled = 0\<rparr>"

definition collectResources :: "lm \<Rightarrow> lm" where
  "collectResources s =
     (let s1 = s\<lparr>resources := resources s @ map Image (imgs (doc s))\<rparr>;
          s2 = s1\<lparr>resources := resources s1 @ map (\<lambda>(u, b). Stylesheet u b) (links (doc s1))\<rparr>;
          s3 = (if hasFonts (doc s2)
                then s2\<lparr>fontsThen := Some Loaded, resources := resources s2 @ [Fonts]\<rparr>
                else s2)
      in s3\<lparr>totalCount := length (resources s3)\<rparr>)"

definition triggerEntranceAnimations :: "lm \<Rightarrow> lm" where
  "triggerEntranceAnimations s =
     foldl (\<lambda>s i. setTimeout (Reveal i) (i * 200) s) s [0 ..< heroes (doc s)]"

definition onLoadingComplete :: "lm \<Rightarrow> lm" where
  "onLoadingComplete s =
     (let s1 = triggerEntranceAnimations (s\<lparr>bodyLoaded := True\<rparr>)
      in s1\<lparr>hookAt := hookAt s1 @ [now s1]\<rparr>)"

definition completeLoading :: "lm \<Rightarrow> lm" where
  "completeLoading s =
     (if isComplete s then s
      else let s1 = s\<lparr>isComplete := True, readyAt := Some (now s)\<rparr>
           in if loadingScreen s1
              then setTimeout Hide 500 (s1\<lparr>screenFaded := True\<rparr>)
              else onLoadingComplete s1)"

definition messages :: "string list" where
  "messages = [''Loading experience...'', ''Preparing models...'',
               ''Initializing systems...'', ''Almost ready...'']"

definition messageIndex :: "jsnum \<Rightarrow> jsnum" where
  "messageIndex progress =
     js_floor (js_scale (rat_of_nat (length messages - 1)) (js_scale (1 / 100) progress))"

definition updateProgress :: "jsnum \<Rightarrow> lm \<Rightarrow> lm" where
  "updateProgress progress s =
     (let s1 = (if progressBar s then s\<lparr>barWidth := Some progress\<rparr> else s);
          s2 = (if loadingText s1
                then s1\<lparr>statusText :=
                       Some (js_or (js_index messages (messageIndex progress)) ''Loading...'')\<rparr>
                else s1)
      in s2\<lparr>sinkCalls := sinkCalls s2 @ [progress]\<rparr>)"

definition onResourceLoaded :: "lm \<Rightarrow> lm" where
  "onResourceLoaded s =
     (let s1 = s\<lparr>loadedCount := loadedCount s + 1, lastSettled := now s\<rparr>;
          progress = js_scale 100 (js_quot (loadedCount s1) (totalCount s1));
          s2 = updateProgress progress s1
      in if loadedCount s2 \<ge> totalCount s2 then setTimeout Grace 500 s2 else s2)"

definition loadImage :: "lm \<Rightarrow> lm" where
  "loadImage s =
     s\<lparr>targets := targets s @ [\<lparr>onload = Some Loaded, onerror = Some Loaded, delivered = False\<rparr>]\<rparr>"

definition loadStylesheet :: "bool \<Rightarrow> lm \<Rightarrow> lm" where
  "loadStylesheet sheet s =
     (if sheet then onResourceLoaded s
      else s\<lparr>targets := targets s @
                 [\<lparr>onload = Some Loaded, onerror = Some Loaded, delivered = False\<rparr>]\<rparr>)"

fun loadResource :: "resource \<Rightarrow> lm \<Rightarrow> lm" where
  "loadResource (Image u) s = loadImage s"
| "loadResource (Stylesheet u sheet) s = loadStylesheet sheet s"
| "loadResource Fonts s = s"

definition startLoading :: "lm \<Rightarrow> lm" where
  "startLoading s =
     (if totalCount s = 0 then completeLoading s
      else setTimeout Fallback 5000 (foldl (\<lambda>s r. loadResource r s) s (resources s)))"

definition init :: "page \<Rightarrow> lm" where
  "init p = startLoading (collectResources (new_lm p))"

subsection \<open>The browser\<close>

fun call :: "callback \<Rightarrow> lm \<Rightarrow> lm" where
  "call Loaded s = onResourceLoaded s"
| "call Fallback s =
     (if \<not> isComplete s then completeLoading (s\<lparr>fallbackForced := True\<rparr>) else s)"
| "call Grace s = completeLoading s"
| "call Hide s = onLoadingComplete (s\<lparr>screenHidden := True\<rparr>)"
| "call (Reveal i) s = s\<lparr>revealed := revealed s @ [i]\<rparr>"

text \<open>
  What the browser may do between two runs of the class's code:
  \<^item> \<open>Settle k ok\<close>: the load of target \<open>k\<close> ends, with success or failure; the browser
    dispatches \<open>load\<close> or \<open>error\<close> to it, once per target, and the handler assigned to that
    event runs;
  \<^item> \<open>FontsReady\<close>: the \<open>document.fonts.ready\<close> promise runs its reaction, once;
  \<^item> \<open>Fire d cb\<close>: a pending timer that is due runs;
  \<^item> \<open>Advance d\<close>: \<open>d\<close> ms pass.  Timers are exact: time does not pass a pending timer's
    due time before that timer has run.
  An event that is not enabled leaves the state as it is.
\<close>

datatype event = Settle nat bool | FontsReady | Fire nat callback | Advance nat

fun step :: "event \<Rightarrow> lm \<Rightarrow> lm" where
  "step (Settle k ok) s =
     (if k < length (targets s) \<and> \<not> delivered (targets s ! k)
      then let t = targets s ! k;
               s1 = s\<lparr>targets := (targets s)[k := t\<lparr>delivered := True\<rparr>]\<rparr>
           in (case (if ok then onload t else onerror t) of
                 None \<Rightarrow> s1
               | Some cb \<Rightarrow> call cb s1)
      else s)"
| "step FontsReady s =
     (case fontsThen s of
        None \<Rightarrow> s
      | Some cb \<Rightarrow> call cb (s\<lparr>fontsThen := None\<rparr>))"
| "step (Fire d cb) s =
     (if (d, cb) \<in> set (timers s) \<and> d \<le> now s
      then call cb (s\<lparr>timers := remove1 (d, cb) (timers s)\<rparr>)
      else s)"
| "step (Advance d) s =
     (if list_all (\<lambda>t. now s + d \<le> fst t) (timers s) then s\<lparr>now := now s + d\<rparr> else s)"

definition run :: "event list \<Rightarrow> lm \<Rightarrow> lm" where
  "run evs s = foldl (\<lambda>s e. step e s) s evs"

section \<open>Notions used in the proofs\<close>

text \<open>
  Nothing below is part of the program.  \<open>due_of\<close> lists the due times of the pending timers
  that carry a given callback; \<open>waiting\<close> counts the settlements the browser still owes;
  \<open>percent\<close> is the expression of line 907; \<open>reveals\<close> are the timers that
  \<open>triggerEntranceAnimations\<close> registers; \<open>discovered\<close> is the resource list that
  \<open>collectResources\<close> builds.  The predicates \<open>counted\<close>, \<open>inv_time\<close>, \<open>inv_hook\<close>,
  \<open>inv_fallback\<close> and \<open>inv_grace\<close> together form the invariant \<open>lm_inv\<close> of the states the
  constructor and the browser can produce; \<open>attaching\<close> is the invariant of the \<open>forEach\<close> loop
  of \<open>startLoading\<close>, where \<open>todo\<close> counts the resources the loop has still to visit.
  \<open>js_le\<close> is JavaScript's \<open><=\<close> on numbers (false as soon as one side is NaN),
  \<open>is_finite\<close> is \<open>Number.isFinite\<close>, \<open>js_min\<close> is \<open>Math.min\<close> (NaN as soon as one side is
  NaN), and \<open>failing\<close> turns every settlement of a run into a failure.  The four pages are the concrete inputs the claims are evaluated on.
\<close>

definition waiting :: "lm \<Rightarrow> nat" where
  "waiting s = length (filter (\<lambda>t. \<not> delivered t) (targets s)) +
               (case fontsThen s of None \<Rightarrow> 0 | Some cb \<Rightarrow> 1)"

definition percent :: "nat \<Rightarrow> nat \<Rightarrow> jsnum" where
  "percent k n = js_scale 100 (js_quot k n)"

definition due_of :: "callback \<Rightarrow> (nat \<times> callback) list \<Rightarrow> nat list" where
  "due_of cb ts = map fst (filter (\<lambda>t. snd t = cb) ts)"

definition inv_time :: "lm \<Rightarrow> bool" where
  "inv_time s \<longleftrightarrow> list_all (\<lambda>t. now s \<le> fst t \<and> snd t \<noteq> Loaded) (timers s)"

definition reveals :: "lm \<Rightarrow> (nat \<times> callback) list" where
  "reveals s = map (\<lambda>i. (now s + i * 200, Reveal i)) [0 ..< heroes (doc s)]"

definition inv_hook :: "lm \<Rightarrow> bool" where
  "inv_hook s \<longleftrightarrow>
     (readyAt s = None \<longleftrightarrow> \<not> isComplete s) \<and>
     (readyAt s = None \<longrightarrow> hookAt s = [] \<and> due_of Hide (timers s) = []) \<and>
     (\<forall>t. readyAt s = Some t \<longrightarrow>
        t \<le> now s \<and>
        (if loadingScreen s
         then (hookAt s = [] \<and> due_of Hide (timers s) = [t + 500]) \<or>
              (hookAt s = [t + 500] \<and> due_of Hide (timers s) = [] \<and> t + 500 \<le> now s)
         else hookAt s = [t] \<and> due_of Hide (timers s) = []))"

definition inv_fallback :: "lm \<Rightarrow> bool" where
  "inv_fallback s \<longleftrightarrow>
     (\<not> isComplete s \<longrightarrow>
        \<not> fallbackForced s \<and> due_of Fallback (timers s) = [5000] \<and> 1 \<le> totalCount s) \<and>
     (fallbackForced s \<longrightarrow>
        readyAt s = Some 5000 \<and> due_of Fallback (timers s) = [] \<and> 5000 \<le> now s) \<and>
     (\<forall>t. readyAt s = Some t \<longrightarrow> t \<le> 5000)"

definition inv_grace :: "lm \<Rightarrow> bool" where
  "inv_grace s \<longleftrightarrow>
     (loadedCount s < totalCount s \<longrightarrow> due_of Grace (timers s) = []) \<and>
     (loadedCount s = totalCount s \<and> 1 \<le> totalCount s \<longrightarrow>
        lastSettled s \<le> now s \<and>
        (due_of Grace (timers s) = [lastSettled s + 500] \<or>
         (due_of Grace (timers s) = [] \<and> isComplete s \<and> lastSettled s + 500 \<le> now s))) \<and>
     (fallbackForced s \<and> loadedCount s = totalCount s \<longrightarrow> 5000 \<le> lastSettled s + 500) \<and>
     (isComplete s \<and> \<not> fallbackForced s \<and> 1 \<le> totalCount s \<longrightarrow>
        loadedCount s = totalCount s \<and> due_of Grace (timers s) = [] \<and>
        readyAt s = Some (lastSettled s + 500))"

definition handled :: "target \<Rightarrow> bool" where
  "handled t \<longleftrightarrow> onload t = Some Loaded \<and> onerror t = Some Loaded"

definition counted :: "nat \<Rightarrow> lm \<Rightarrow> bool" where
  "counted r s \<longleftrightarrow>
     loadedCount s + waiting s + r = totalCount s \<and>
     list_all handled (targets s) \<and>
     (fontsThen s = None \<or> fontsThen s = Some Loaded) \<and>
     sinkCalls s = map (\<lambda>k. percent k (totalCount s)) [1 ..< Suc (loadedCount s)]"

definition lm_inv :: "lm \<Rightarrow> bool" where
  "lm_inv s \<longleftrightarrow> counted 0 s \<and> inv_time s \<and> inv_hook s \<and> inv_fallback s \<and> inv_grace s"

definition discovered :: "page \<Rightarrow> resource list" where
  "discovered p = map Image (imgs p) @ map (\<lambda>(u, b). Stylesheet u b) (links p) @
                  (if hasFonts p then [Fonts] else [])"

definition attaching :: "nat \<Rightarrow> lm \<Rightarrow> bool" where
  "attaching r s \<longleftrightarrow>
     counted r s \<and> now s = 0 \<and> \<not> isComplete s \<and> readyAt s = None \<and> hookAt s = [] \<and>
     \<not> fallbackForced s \<and> lastSettled s = 0 \<and> 1 \<le> totalCount s \<and>
     timers s = (if loadedCount s < totalCount s then [] else [(500, Grace)])"

definition todo :: "resource list \<Rightarrow> nat" where
  "todo rs = length (filter (\<lambda>r. r \<noteq> Fonts) rs)"

definition page_one_image :: page where
  "page_one_image =
     \<lparr>hasLoadingScreen = True, hasProgressBar = True, hasLoadingText = True,
      imgs = [''hero.jpg''], links = [], hasFonts = False, heroes = 3\<rparr>"

definition page_bare_image :: page where
  "page_bare_image =
     \<lparr>hasLoadingScreen = False, hasProgressBar = True, hasLoadingText = True,
      imgs = [''hero.jpg''], links = [], hasFonts = False, heroes = 3\<rparr>"

definition page_empty :: page where
  "page_empty =
     \<lparr>hasLoadingScreen = True, hasProgressBar = True, hasLoadingText = True,
      imgs = [], links = [], hasFonts = False, heroes = 3\<rparr>"

fun js_le :: "jsnum \<Rightarrow> jsnum \<Rightarrow> bool" where
  "js_le (Finite a) (Finite b) = (a \<le> b)"
| "js_le (Finite a) PosInf = True"
| "js_le PosInf PosInf = True"
| "js_le PosInf (Finite b) = False"
| "js_le NaN y = False"
| "js_le x NaN = False"

fun is_finite :: "jsnum \<Rightarrow> bool" where
  "is_finite (Finite q) = True"
| "is_finite PosInf = False"
| "is_finite NaN = False"

fun js_min :: "jsnum \<Rightarrow> jsnum \<Rightarrow> jsnum" where
  "js_min NaN y = NaN"
| "js_min x NaN = NaN"
| "js_min (Finite a) (Finite b) = Finite (min a b)"
| "js_min (Finite a) PosInf = Finite a"
| "js_min PosInf (Finite b) = Finite b"
| "js_min PosInf PosInf = PosInf"

definition page_mixed :: page where
  "page_mixed =
     \<lparr>hasLoadingScreen = True, hasProgressBar = True, hasLoadingText = True,
      imgs = [''a.png'', ''b.png''], links = [(''main.css'', True)], hasFonts = True,
      heroes = 3\<rparr>"


section \<open>Lemmas\<close>

subsection \<open>Runs and closed forms of the methods\<close>

lemma run_snoc: "run (evs @ [e]) s = step e (run evs s)"
  by (simp add: run_def)

lemma run_Nil: "run [] s = s"
  by (simp add: run_def)

lemma run_append: "run (xs @ ys) s = run ys (run xs s)"
  by (simp add: run_def)

lemma reveal_timers:
  "foldl (\<lambda>s i. setTimeout (Reveal i) (i * 200) s) s xs =
     s\<lparr>timers := timers s @ map (\<lambda>i. (now s + i * 200, Reveal i)) xs\<rparr>"
  by (induction xs arbitrary: s) (simp_all add: setTimeout_def)

lemma triggerEntranceAnimations_eq:
  "triggerEntranceAnimations s =
     s\<lparr>timers := timers s @ map (\<lambda>i. (now s + i * 200, Reveal i)) [0 ..< heroes (doc s)]\<rparr>"
  by (simp add: triggerEntranceAnimations_def reveal_timers)

lemmas method_defs = setTimeout_def onLoadingComplete_def completeLoading_def
  updateProgress_def onResourceLoaded_def triggerEntranceAnimations_eq Let_def

lemma undelivered_update:
  "k < length ts \<Longrightarrow> \<not> delivered (ts ! k) \<Longrightarrow>
   Suc (length (filter (\<lambda>t. \<not> delivered t) (ts[k := (ts ! k)\<lparr>delivered := True\<rparr>]))) =
   length (filter (\<lambda>t. \<not> delivered t) ts)"
proof (induction ts arbitrary: k)
  case Nil
  then show ?case by simp
next
  case (Cons t ts)
  then show ?case by (cases k) auto
qed

subsection \<open>Pending timers by callback\<close>

lemma due_of_Nil: "due_of cb [] = []"
  by (simp add: due_of_def)

lemma due_of_append: "due_of cb (xs @ ys) = due_of cb xs @ due_of cb ys"
  by (simp add: due_of_def)

lemma due_of_single: "due_of cb [(d, cb')] = (if cb' = cb then [d] else [])"
  by (simp add: due_of_def)

lemma due_of_reveals:
  "cb \<noteq> Reveal i \<Longrightarrow> (\<And>i. cb \<noteq> Reveal i) \<Longrightarrow> due_of cb (map (\<lambda>i. (f i, Reveal i)) xs) = []"
  by (induction xs) (auto simp: due_of_def)

lemma due_of_remove1_same: "due_of cb (remove1 (d, cb) ts) = remove1 d (due_of cb ts)"
  by (induction ts) (auto simp: due_of_def)

lemma due_of_remove1_other: "cb \<noteq> cb' \<Longrightarrow> due_of cb (remove1 (d, cb') ts) = due_of cb ts"
  by (induction ts) (auto simp: due_of_def)

lemma mem_due_of: "(d, cb) \<in> set ts \<longleftrightarrow> d \<in> set (due_of cb ts)"
  by (induction ts) (auto simp: due_of_def)

lemma list_all_remove1: "list_all P xs \<Longrightarrow> list_all P (remove1 x xs)"
  by (induction xs) auto

subsection \<open>Effects of the methods; the Ready Hook\<close>

lemma due_of_reveals_simps:
  "due_of Fallback (reveals s) = []" "due_of Grace (reveals s) = []"
  "due_of Hide (reveals s) = []" "due_of Loaded (reveals s) = []"
  by (simp_all add: reveals_def due_of_reveals)

lemma reveals_upd:
  "reveals (s\<lparr>timers := ts\<rparr>) = reveals s"
  "reveals (s\<lparr>isComplete := b\<rparr>) = reveals s"
  "reveals (s\<lparr>readyAt := r\<rparr>) = reveals s"
  "reveals (s\<lparr>fallbackForced := f\<rparr>) = reveals s"
  "reveals (s\<lparr>screenHidden := h\<rparr>) = reveals s"
  "reveals (s\<lparr>targets := tg\<rparr>) = reveals s"
  "reveals (s\<lparr>fontsThen := ft\<rparr>) = reveals s"
  by (simp_all add: reveals_def)

lemma onLoadingComplete_effect:
  "timers (onLoadingComplete s) = timers s @ reveals s"
  "hookAt (onLoadingComplete s) = hookAt s @ [now s]"
  "now (onLoadingComplete s) = now s"
  "isComplete (onLoadingComplete s) = isComplete s"
  "readyAt (onLoadingComplete s) = readyAt s"
  "fallbackForced (onLoadingComplete s) = fallbackForced s"
  "lastSettled (onLoadingComplete s) = lastSettled s"
  "loadingScreen (onLoadingComplete s) = loadingScreen s"
  "loadedCount (onLoadingComplete s) = loadedCount s"
  "totalCount (onLoadingComplete s) = totalCount s"
  by (simp_all add: method_defs reveals_def)

lemma completeLoading_done: "isComplete s \<Longrightarrow> completeLoading s = s"
  by (simp add: completeLoading_def)

lemma completeLoading_effect:
  "\<not> isComplete s \<Longrightarrow> timers (completeLoading s) =
      timers s @ (if loadingScreen s then [(now s + 500, Hide)] else reveals s)"
  "\<not> isComplete s \<Longrightarrow> hookAt (completeLoading s) =
      (if loadingScreen s then hookAt s else hookAt s @ [now s])"
  "\<not> isComplete s \<Longrightarrow> readyAt (completeLoading s) = Some (now s)"
  "isComplete (completeLoading s)"
  "now (completeLoading s) = now s"
  "fallbackForced (completeLoading s) = fallbackForced s"
  "lastSettled (completeLoading s) = lastSettled s"
  "loadingScreen (completeLoading s) = loadingScreen s"
  "loadedCount (completeLoading s) = loadedCount s"
  "totalCount (completeLoading s) = totalCount s"
  by (simp_all add: method_defs reveals_def)

lemma onResourceLoaded_effect:
  "timers (onResourceLoaded s) =
      timers s @ (if totalCount s \<le> Suc (loadedCount s) then [(now s + 500, Grace)] else [])"
  "hookAt (onResourceLoaded s) = hookAt s"
  "readyAt (onResourceLoaded s) = readyAt s"
  "isComplete (onResourceLoaded s) = isComplete s"
  "now (onResourceLoaded s) = now s"
  "fallbackForced (onResourceLoaded s) = fallbackForced s"
  "lastSettled (onResourceLoaded s) = now s"
  "loadingScreen (onResourceLoaded s) = loadingScreen s"
  "loadedCount (onResourceLoaded s) = Suc (loadedCount s)"
  "totalCount (onResourceLoaded s) = totalCount s"
  by (simp_all add: method_defs)

lemmas due_simps = due_of_append due_of_single due_of_Nil due_of_reveals_simps
  due_of_remove1_same due_of_remove1_other

lemma inv_time_mem: "inv_time s \<Longrightarrow> (d, cb) \<in> set (timers s) \<Longrightarrow> now s \<le> d \<and> cb \<noteq> Loaded"
  by (auto simp: inv_time_def list_all_iff)

lemma inv_hook_onResourceLoaded: "inv_hook s \<Longrightarrow> inv_hook (onResourceLoaded s)"
  by (simp add: inv_hook_def onResourceLoaded_effect due_simps)

lemma inv_hook_Reveal:
  "inv_hook s \<Longrightarrow> inv_hook (call (Reveal i) (s\<lparr>timers := remove1 (d, Reveal i) (timers s)\<rparr>))"
  by (simp add: inv_hook_def due_simps)

lemma inv_hook_Hide:
  assumes "inv_hook s" and "(now s, Hide) \<in> set (timers s)"
  shows "inv_hook (call Hide (s\<lparr>timers := remove1 (now s, Hide) (timers s)\<rparr>))"
proof -
  from assms(2) have m: "now s \<in> set (due_of Hide (timers s))" by (simp add: mem_due_of)
  with assms(1) obtain t where t: "readyAt s = Some t" "isComplete s"
    by (cases "readyAt s") (auto simp: inv_hook_def)
  with assms(1) m have ls: "loadingScreen s" and h: "hookAt s = []"
    and d: "due_of Hide (timers s) = [t + 500]" and n: "now s = t + 500"
    by (auto simp: inv_hook_def split: if_splits)
  show ?thesis
    using t ls h d n
    by (simp add: inv_hook_def onLoadingComplete_effect due_simps reveals_upd)
qed

lemma inv_hook_completeLoading:
  assumes "inv_hook s" 
  shows "inv_hook (completeLoading s)"
proof (cases "isComplete s")
  case True
  with assms show ?thesis by (simp add: completeLoading_done)
next
  case False
  with assms have "readyAt s = None" "hookAt s = []" "due_of Hide (timers s) = []"
    by (auto simp: inv_hook_def)
  with False show ?thesis
    by (simp add: inv_hook_def completeLoading_effect due_simps)
qed

lemma inv_hook_timers_other:
  "cb \<noteq> Hide \<Longrightarrow> inv_hook (s\<lparr>timers := remove1 (d, cb) (timers s)\<rparr>) = inv_hook s"
  by (simp add: inv_hook_def due_simps)

lemma inv_hook_fallbackForced: "inv_hook (s\<lparr>fallbackForced := b\<rparr>) = inv_hook s"
  by (simp add: inv_hook_def)

lemma inv_hook_targets: "inv_hook (s\<lparr>targets := tg\<rparr>) = inv_hook s"
  by (simp add: inv_hook_def)

lemma inv_hook_fontsThen: "inv_hook (s\<lparr>fontsThen := ft\<rparr>) = inv_hook s"
  by (simp add: inv_hook_def)

lemma inv_hook_Advance: "inv_hook s \<Longrightarrow> inv_hook (s\<lparr>now := now s + d\<rparr>)"
  by (auto simp: inv_hook_def)

subsection \<open>The fallback timer and the grace timer\<close>

lemma inv_fallback_onResourceLoaded: "inv_fallback s \<Longrightarrow> inv_fallback (onResourceLoaded s)"
  by (simp add: inv_fallback_def onResourceLoaded_effect due_simps)

lemma inv_fallback_timers_other:
  "cb \<noteq> Fallback \<Longrightarrow> inv_fallback (s\<lparr>timers := remove1 (d, cb) (timers s)\<rparr>) = inv_fallback s"
  by (simp add: inv_fallback_def due_simps)

lemma inv_fallback_targets: "inv_fallback (s\<lparr>targets := tg\<rparr>) = inv_fallback s"
  by (simp add: inv_fallback_def)

lemma inv_fallback_fontsThen: "inv_fallback (s\<lparr>fontsThen := ft\<rparr>) = inv_fallback s"
  by (simp add: inv_fallback_def)

lemma inv_fallback_Reveal: "inv_fallback s \<Longrightarrow> inv_fallback (call (Reveal i) s)"
  by (simp add: inv_fallback_def)

lemma inv_fallback_Hide: "inv_fallback s \<Longrightarrow> inv_fallback (call Hide s)"
  by (simp add: inv_fallback_def onLoadingComplete_effect due_simps)

lemma not_complete_early:
  assumes "inv_fallback s" and "inv_time s" and "\<not> isComplete s"
  shows "now s \<le> 5000" and "(5000, Fallback) \<in> set (timers s)"
proof -
  from assms(1,3) have "due_of Fallback (timers s) = [5000]" by (simp add: inv_fallback_def)
  then show m: "(5000, Fallback) \<in> set (timers s)" by (simp add: mem_due_of)
  with assms(2) show "now s \<le> 5000" by (auto dest: inv_time_mem)
qed

lemma inv_fallback_Grace:
  assumes "inv_fallback s" and "inv_time s" and "inv_hook s"
  shows "inv_fallback (call Grace s)"
proof (cases "isComplete s")
  case True
  with assms show ?thesis by (simp add: completeLoading_done)
next
  case False
  from not_complete_early [OF assms(1,2) False] have e: "now s \<le> 5000" by simp
  from False assms(1) have "\<not> fallbackForced s" by (simp add: inv_fallback_def)
  with False e show ?thesis
    by (simp add: inv_fallback_def completeLoading_effect)
qed

lemma inv_fallback_Fallback:
  assumes "inv_fallback s" and "inv_hook s" and "(now s, Fallback) \<in> set (timers s)"
  shows "inv_fallback (call Fallback (s\<lparr>timers := remove1 (now s, Fallback) (timers s)\<rparr>))"
proof (cases "isComplete s")
  case True
  with assms(1,2) show ?thesis
    by (auto simp: inv_fallback_def inv_hook_def due_simps)
next
  case False
  with assms(1) have d: "due_of Fallback (timers s) = [5000]" and nf: "\<not> fallbackForced s"
    by (simp_all add: inv_fallback_def)
  from assms(3) d have n: "now s = 5000" by (simp add: mem_due_of)
  from False d n show ?thesis
    by (simp add: inv_fallback_def completeLoading_effect due_simps)
qed

lemma inv_fallback_Advance: "inv_fallback s \<Longrightarrow> inv_fallback (s\<lparr>now := now s + d\<rparr>)"
  by (auto simp: inv_fallback_def)

lemma inv_grace_targets: "inv_grace (s\<lparr>targets := tg\<rparr>) = inv_grace s"
  by (simp add: inv_grace_def)

lemma inv_grace_fontsThen: "inv_grace (s\<lparr>fontsThen := ft\<rparr>) = inv_grace s"
  by (simp add: inv_grace_def)

lemma inv_grace_timers_other:
  "cb \<noteq> Grace \<Longrightarrow> inv_grace (s\<lparr>timers := remove1 (d, cb) (timers s)\<rparr>) = inv_grace s"
  by (simp add: inv_grace_def due_simps)

lemma inv_grace_Reveal: "inv_grace s \<Longrightarrow> inv_grace (call (Reveal i) s)"
  by (simp add: inv_grace_def)

lemma inv_grace_Hide: "inv_grace s \<Longrightarrow> inv_grace (call Hide s)"
  by (simp add: inv_grace_def onLoadingComplete_effect due_simps)

lemma inv_grace_Advance: "inv_grace s \<Longrightarrow> inv_grace (s\<lparr>now := now s + d\<rparr>)"
  by (auto simp: inv_grace_def)

lemma inv_grace_onResourceLoaded:
  assumes "inv_grace s" and "inv_fallback s" and "loadedCount s < totalCount s"
  shows "inv_grace (onResourceLoaded s)"
proof -
  from assms(1,3) have g: "due_of Grace (timers s) = []" by (simp add: inv_grace_def)
  from assms(1,3) have c: "isComplete s \<longrightarrow> fallbackForced s" by (auto simp: inv_grace_def)
  from assms(2) have f: "fallbackForced s \<longrightarrow> 5000 \<le> now s" by (simp add: inv_fallback_def)
  show ?thesis
  proof (cases "Suc (loadedCount s) = totalCount s")
    case True
    with g c f show ?thesis
      by (auto simp: inv_grace_def onResourceLoaded_effect due_simps)
  next
    case False
    with assms(3) have "Suc (loadedCount s) < totalCount s" by simp
    with g c show ?thesis
      by (simp add: inv_grace_def onResourceLoaded_effect due_simps)
  qed
qed

lemma inv_grace_Fallback:
  assumes "inv_grace s" and "inv_time s" and "(now s, Fallback) \<in> set (timers s)"
    and "inv_fallback s"
  shows "inv_grace (call Fallback (s\<lparr>timers := remove1 (now s, Fallback) (timers s)\<rparr>))"
proof (cases "isComplete s")
  case True
  with assms(1) show ?thesis by (simp add: inv_grace_def due_simps)
next
  case False
  with assms(4) have d: "due_of Fallback (timers s) = [5000]" by (simp add: inv_fallback_def)
  from assms(3) d have n: "now s = 5000" by (simp add: mem_due_of)
  have l: "loadedCount s = totalCount s \<longrightarrow> 5000 \<le> lastSettled s + 500"
  proof
    assume eq: "loadedCount s = totalCount s"
    from False assms(4) have "1 \<le> totalCount s" by (simp add: inv_fallback_def)
    with eq assms(1) False have "due_of Grace (timers s) = [lastSettled s + 500]"
      by (auto simp: inv_grace_def)
    then have "(lastSettled s + 500, Grace) \<in> set (timers s)" by (simp add: mem_due_of)
    with assms(2) have "now s \<le> lastSettled s + 500" by (auto dest: inv_time_mem)
    with n show "5000 \<le> lastSettled s + 500" by simp
  qed
  from False assms(1) l show ?thesis
    by (auto simp: inv_grace_def completeLoading_effect due_simps)
qed

lemma inv_grace_Grace:
  assumes "inv_grace s" and "(now s, Grace) \<in> set (timers s)" and "inv_fallback s"
    and "loadedCount s \<le> totalCount s"
  shows "inv_grace (call Grace (s\<lparr>timers := remove1 (now s, Grace) (timers s)\<rparr>))"
proof -
  from assms(2) have m: "now s \<in> set (due_of Grace (timers s))" by (simp add: mem_due_of)
  with assms(1,4) have eq: "loadedCount s = totalCount s"
    by (cases "loadedCount s < totalCount s") (auto simp: inv_grace_def)
  show ?thesis
  proof (cases "totalCount s = 0")
    case True
    with assms(3) have "isComplete s" by (auto simp: inv_fallback_def)
    with True eq assms(1) show ?thesis
      by (simp add: completeLoading_done inv_grace_def)
  next
    case False
    then have t1: "1 \<le> totalCount s" by simp
    with eq assms(1) m have g: "due_of Grace (timers s) = [lastSettled s + 500]"
      and n: "now s = lastSettled s + 500"
      by (auto simp: inv_grace_def)
    show ?thesis
    proof (cases "isComplete s")
      case True
      with assms(1) eq t1 g have ff: "fallbackForced s" by (auto simp: inv_grace_def)
      with assms(1) eq have "5000 \<le> lastSettled s + 500" by (simp add: inv_grace_def)
      with True ff eq g n show ?thesis
        by (simp add: completeLoading_done inv_grace_def due_simps)
    next
      case c: False
      with assms(3) have "\<not> fallbackForced s" by (simp add: inv_fallback_def)
      with c eq g n show ?thesis
        by (simp add: inv_grace_def completeLoading_effect due_simps)
    qed
  qed
qed

subsection \<open>Counting settlements; timers are never overdue\<close>

lemma onResourceLoaded_count_effect:
  "targets (onResourceLoaded s) = targets s"
  "fontsThen (onResourceLoaded s) = fontsThen s"
  "sinkCalls (onResourceLoaded s) = sinkCalls s @ [percent (Suc (loadedCount s)) (totalCount s)]"
  by (simp_all add: method_defs percent_def)

lemma completeLoading_count_effect:
  "targets (completeLoading s) = targets s"
  "fontsThen (completeLoading s) = fontsThen s"
  "sinkCalls (completeLoading s) = sinkCalls s"
  by (simp_all add: method_defs)

lemma onLoadingComplete_count_effect:
  "targets (onLoadingComplete s) = targets s"
  "fontsThen (onLoadingComplete s) = fontsThen s"
  "sinkCalls (onLoadingComplete s) = sinkCalls s"
  by (simp_all add: method_defs)

lemma counted_onResourceLoaded: "counted (Suc r) s \<Longrightarrow> counted r (onResourceLoaded s)"
  by (simp add: counted_def waiting_def onResourceLoaded_effect onResourceLoaded_count_effect)

lemma counted_completeLoading: "counted r (completeLoading s) = counted r s"
  by (cases "isComplete s")
     (simp_all add: counted_def waiting_def completeLoading_effect completeLoading_count_effect
        completeLoading_done)

lemma counted_onLoadingComplete: "counted r (onLoadingComplete s) = counted r s"
  by (simp add: counted_def waiting_def onLoadingComplete_effect onLoadingComplete_count_effect)

lemma counted_upd:
  "counted r (s\<lparr>timers := ts\<rparr>) = counted r s"
  "counted r (s\<lparr>now := n\<rparr>) = counted r s"
  "counted r (s\<lparr>fallbackForced := b\<rparr>) = counted r s"
  "counted r (s\<lparr>screenHidden := b\<rparr>) = counted r s"
  "counted r (s\<lparr>revealed := rv\<rparr>) = counted r s"
  by (simp_all add: counted_def waiting_def)

lemma handled_update:
  "list_all handled ts \<Longrightarrow> list_all handled (ts[k := (ts ! k)\<lparr>delivered := True\<rparr>])"
proof (induction ts arbitrary: k)
  case Nil
  then show ?case by simp
next
  case (Cons t ts)
  then show ?case by (cases k) (auto simp: handled_def)
qed

lemma counted_deliver:
  assumes "counted r s" and "k < length (targets s)" and "\<not> delivered (targets s ! k)"
  shows "counted (Suc r) (s\<lparr>targets := (targets s)[k := (targets s ! k)\<lparr>delivered := True\<rparr>]\<rparr>)"
  using assms undelivered_update [OF assms(2,3)]
  by (auto simp: counted_def waiting_def handled_update)

lemma counted_fonts:
  assumes "counted r s" and "fontsThen s = Some cb"
  shows "counted (Suc r) (s\<lparr>fontsThen := None\<rparr>)" and "cb = Loaded"
  using assms by (auto simp: counted_def waiting_def)

lemma counted_handlers:
  assumes "counted r s" and "k < length (targets s)"
  shows "onload (targets s ! k) = Some Loaded" and "onerror (targets s ! k) = Some Loaded"
  using assms by (auto simp: counted_def list_all_length handled_def)

lemma counted_call:
  "cb \<noteq> Loaded \<Longrightarrow> counted r (call cb s) = counted r s"
  by (cases cb) (simp_all add: counted_upd counted_completeLoading counted_onLoadingComplete)

lemma counted_less: "counted (Suc r) s \<Longrightarrow> loadedCount s < totalCount s"
  by (simp add: counted_def)

lemma counted_le: "counted r s \<Longrightarrow> loadedCount s \<le> totalCount s"
  by (simp add: counted_def)

lemma reveals_ok: "list_all (\<lambda>t. now s \<le> fst t \<and> snd t \<noteq> Loaded) (reveals s)"
  by (simp add: reveals_def list_all_iff)

lemma inv_time_onResourceLoaded: "inv_time s \<Longrightarrow> inv_time (onResourceLoaded s)"
  by (simp add: inv_time_def onResourceLoaded_effect)

lemma inv_time_onLoadingComplete: "inv_time s \<Longrightarrow> inv_time (onLoadingComplete s)"
  by (simp add: inv_time_def onLoadingComplete_effect reveals_ok)

lemma inv_time_completeLoading: "inv_time s \<Longrightarrow> inv_time (completeLoading s)"
  by (cases "isComplete s")
     (simp_all add: inv_time_def completeLoading_done completeLoading_effect reveals_ok)

lemma inv_time_upd:
  "inv_time (s\<lparr>targets := tg\<rparr>) = inv_time s"
  "inv_time (s\<lparr>fontsThen := ft\<rparr>) = inv_time s"
  "inv_time (s\<lparr>fallbackForced := b\<rparr>) = inv_time s"
  "inv_time (s\<lparr>screenHidden := b\<rparr>) = inv_time s"
  "inv_time (s\<lparr>revealed := rv\<rparr>) = inv_time s"
  by (simp_all add: inv_time_def)

lemma inv_time_remove1: "inv_time s \<Longrightarrow> inv_time (s\<lparr>timers := remove1 x (timers s)\<rparr>)"
  by (simp add: inv_time_def list_all_remove1)

lemma inv_time_call: "inv_time s \<Longrightarrow> inv_time (call cb s)"
  by (cases cb)
     (simp_all add: inv_time_upd inv_time_onResourceLoaded inv_time_completeLoading
        inv_time_onLoadingComplete)

lemma inv_time_Advance:
  "list_all (\<lambda>t. now s + d \<le> fst t) (timers s) \<Longrightarrow> inv_time s \<Longrightarrow> inv_time (s\<lparr>now := now s + d\<rparr>)"
  by (simp add: inv_time_def list_all_iff)

subsection \<open>Every step of the browser preserves the invariant\<close>

lemma lm_inv_settled:
  assumes "counted (Suc 0) s" and "inv_time s" and "inv_hook s" and "inv_fallback s"
    and "inv_grace s"
  shows "lm_inv (onResourceLoaded s)"
  unfolding lm_inv_def
  using assms counted_less [OF assms(1)]
  by (simp add: counted_onResourceLoaded inv_time_onResourceLoaded inv_hook_onResourceLoaded
      inv_fallback_onResourceLoaded inv_grace_onResourceLoaded)

lemma lm_inv_Settle:
  assumes "lm_inv s"
  shows "lm_inv (step (Settle k ok) s)"
proof (cases "k < length (targets s) \<and> \<not> delivered (targets s ! k)")
  case False
  with assms show ?thesis by auto
next
  case True
  let ?s1 = "s\<lparr>targets := (targets s)[k := (targets s ! k)\<lparr>delivered := True\<rparr>]\<rparr>"
  from assms have c: "counted 0 s" by (simp add: lm_inv_def)
  from True counted_handlers [OF c] have st: "step (Settle k ok) s = onResourceLoaded ?s1"
    by (simp add: Let_def)
  from True c have "counted (Suc 0) ?s1" by (simp add: counted_deliver)
  moreover from assms have "inv_time ?s1" "inv_hook ?s1" "inv_fallback ?s1" "inv_grace ?s1"
    by (simp_all add: lm_inv_def inv_time_upd inv_hook_targets inv_fallback_targets inv_grace_targets)
  ultimately show ?thesis unfolding st by (rule lm_inv_settled)
qed

lemma lm_inv_FontsReady:
  assumes "lm_inv s"
  shows "lm_inv (step FontsReady s)"
proof (cases "fontsThen s")
  case None
  with assms show ?thesis by simp
next
  case (Some cb)
  let ?s1 = "s\<lparr>fontsThen := None\<rparr>"
  from assms have c: "counted 0 s" by (simp add: lm_inv_def)
  from counted_fonts [OF c Some] have c1: "counted (Suc 0) ?s1" and cb: "cb = Loaded"
    by simp_all
  from Some cb have st: "step FontsReady s = onResourceLoaded ?s1" by simp
  from assms have "inv_time ?s1" "inv_hook ?s1" "inv_fallback ?s1" "inv_grace ?s1"
    by (simp_all add: lm_inv_def inv_time_upd inv_hook_fontsThen inv_fallback_fontsThen
        inv_grace_fontsThen)
  with c1 show ?thesis unfolding st by (rule lm_inv_settled)
qed

lemma inv_hook_Fallback:
  "inv_hook s \<Longrightarrow> inv_hook (call Fallback (s\<lparr>timers := remove1 (d, Fallback) (timers s)\<rparr>))"
  by (simp add: inv_hook_completeLoading inv_hook_fallbackForced inv_hook_timers_other)

lemma inv_hook_Grace:
  "inv_hook s \<Longrightarrow> inv_hook (call Grace (s\<lparr>timers := remove1 (d, Grace) (timers s)\<rparr>))"
  by (simp add: inv_hook_completeLoading inv_hook_timers_other)

lemma lm_inv_Fire:
  assumes "lm_inv s"
  shows "lm_inv (step (Fire d cb) s)"
proof (cases "(d, cb) \<in> set (timers s) \<and> d \<le> now s")
  case False
  with assms show ?thesis by auto
next
  case True
  let ?s1 = "s\<lparr>timers := remove1 (d, cb) (timers s)\<rparr>"
  from assms have c: "counted 0 s" and t: "inv_time s" and h: "inv_hook s"
    and f: "inv_fallback s" and g: "inv_grace s"
    by (simp_all add: lm_inv_def)
  from True inv_time_mem [OF t, of d cb] have d: "d = now s" and nl: "cb \<noteq> Loaded"
    by simp_all
  from True have m: "(now s, cb) \<in> set (timers s)" by (simp add: d)
  from True have st: "step (Fire d cb) s = call cb ?s1" by simp
  have c': "counted 0 (call cb ?s1)"
    using c nl by (simp add: counted_call counted_upd)
  have t': "inv_time (call cb ?s1)"
    using t by (simp add: inv_time_call inv_time_remove1)
  have "inv_hook (call cb ?s1) \<and> inv_fallback (call cb ?s1) \<and> inv_grace (call cb ?s1)"
  proof (cases cb)
    case Loaded
    with nl show ?thesis by simp
  next
    case Fallback
    with h f g t m show ?thesis
      unfolding d by (simp only: inv_hook_Fallback inv_fallback_Fallback inv_grace_Fallback)
  next
    case Grace
    have "inv_fallback (call Grace ?s1)"
      by (rule inv_fallback_Grace)
         (simp_all add: Grace f t h inv_fallback_timers_other inv_time_remove1
            inv_hook_timers_other)
    with Grace h f g m counted_le [OF c] show ?thesis
      unfolding d by (simp only: inv_hook_Grace inv_grace_Grace)
  next
    case Hide
    have "inv_fallback (call Hide ?s1)"
      by (rule inv_fallback_Hide) (simp add: Hide f inv_fallback_timers_other)
    moreover have "inv_grace (call Hide ?s1)"
      by (rule inv_grace_Hide) (simp add: Hide g inv_grace_timers_other)
    ultimately show ?thesis
      using Hide h m unfolding d by (simp only: inv_hook_Hide)
  next
    case (Reveal i)
    have "inv_fallback (call (Reveal i) ?s1)"
      by (rule inv_fallback_Reveal) (simp add: Reveal f inv_fallback_timers_other)
    moreover have "inv_grace (call (Reveal i) ?s1)"
      by (rule inv_grace_Reveal) (simp add: Reveal g inv_grace_timers_other)
    ultimately show ?thesis
      using Reveal h by (simp only: inv_hook_Reveal)
  qed
  with c' t' show ?thesis unfolding st lm_inv_def by simp
qed

lemma lm_inv_Advance:
  assumes "lm_inv s"
  shows "lm_inv (step (Advance d) s)"
proof (cases "list_all (\<lambda>t. now s + d \<le> fst t) (timers s)")
  case False
  with assms show ?thesis by simp
next
  case True
  with assms show ?thesis
    by (simp add: lm_inv_def counted_upd inv_time_Advance inv_hook_Advance inv_fallback_Advance
        inv_grace_Advance)
qed

lemma lm_inv_step: "lm_inv s \<Longrightarrow> lm_inv (step e s)"
  by (cases e) (simp_all only: lm_inv_Settle lm_inv_FontsReady lm_inv_Fire lm_inv_Advance)

lemma lm_inv_run: "lm_inv s \<Longrightarrow> lm_inv (run evs s)"
  by (induction evs rule: rev_induct) (simp_all add: run_Nil run_snoc lm_inv_step)

subsection \<open>The constructor establishes the invariant\<close>

lemma collectResources_new:
  "collectResources (new_lm p) =
     (new_lm p)\<lparr>resources := discovered p,
                fontsThen := (if hasFonts p then Some Loaded else None),
                totalCount := length (discovered p)\<rparr>"
  by (simp add: collectResources_def new_lm_def discovered_def Let_def)

lemma todo_simps:
  "todo [] = 0" "todo (Image u # rs) = Suc (todo rs)"
  "todo (Stylesheet u b # rs) = Suc (todo rs)" "todo (Fonts # rs) = todo rs"
  by (simp_all add: todo_def)

lemma todo_discovered: "todo (discovered p) = length (imgs p) + length (links p)"
  by (simp add: todo_def discovered_def filter_map o_def split_def)

lemma length_discovered:
  "length (discovered p) = length (imgs p) + length (links p) + (if hasFonts p then 1 else 0)"
  by (simp add: discovered_def)

lemma counted_attach:
  "counted (Suc r) s \<Longrightarrow>
   counted r (s\<lparr>targets := targets s @
      [\<lparr>onload = Some Loaded, onerror = Some Loaded, delivered = False\<rparr>]\<rparr>)"
  by (simp add: counted_def waiting_def handled_def)

lemma attaching_attach:
  "attaching (Suc r) s \<Longrightarrow>
   attaching r (s\<lparr>targets := targets s @
      [\<lparr>onload = Some Loaded, onerror = Some Loaded, delivered = False\<rparr>]\<rparr>)"
  by (simp add: attaching_def counted_attach)

lemma attaching_onResourceLoaded:
  assumes "attaching (Suc r) s"
  shows "attaching r (onResourceLoaded s)"
proof -
  from assms have c: "counted (Suc r) s" by (simp add: attaching_def)
  from counted_less [OF c] have l: "loadedCount s < totalCount s" .
  with assms have t: "timers s = []" by (simp add: attaching_def)
  from assms c l t show ?thesis
    by (auto simp: attaching_def counted_onResourceLoaded onResourceLoaded_effect)
qed

lemma attaching_loadResource:
  "attaching (todo (x # rs)) s \<Longrightarrow> attaching (todo rs) (loadResource x s)"
  by (cases x)
     (simp_all add: todo_simps loadImage_def loadStylesheet_def attaching_attach
        attaching_onResourceLoaded)

lemma attaching_forEach:
  "attaching (todo rs) s \<Longrightarrow> attaching 0 (foldl (\<lambda>s r. loadResource r s) s rs)"
proof (induction rs arbitrary: s)
  case Nil
  then show ?case by (simp add: todo_simps)
next
  case (Cons x rs)
  from Cons.prems have "attaching (todo rs) (loadResource x s)"
    by (rule attaching_loadResource)
  then show ?case by (simp add: Cons.IH)
qed

lemma collected_fields:
  "resources (collectResources (new_lm p)) = discovered p"
  "totalCount (collectResources (new_lm p)) = length (discovered p)"
  "fontsThen (collectResources (new_lm p)) = (if hasFonts p then Some Loaded else None)"
  "loadedCount (collectResources (new_lm p)) = 0"
  "targets (collectResources (new_lm p)) = []"
  "sinkCalls (collectResources (new_lm p)) = []"
  "timers (collectResources (new_lm p)) = []"
  "now (collectResources (new_lm p)) = 0"
  "isComplete (collectResources (new_lm p)) = False"
  "readyAt (collectResources (new_lm p)) = None"
  "hookAt (collectResources (new_lm p)) = []"
  "fallbackForced (collectResources (new_lm p)) = False"
  "lastSettled (collectResources (new_lm p)) = 0"
  "loadingScreen (collectResources (new_lm p)) = hasLoadingScreen p"
  unfolding collectResources_new by (simp_all add: new_lm_def)

lemma attaching_collected:
  assumes "discovered p \<noteq> []"
  shows "attaching (todo (discovered p)) (collectResources (new_lm p))"
proof -
  from assms have "1 \<le> length (discovered p)" by (cases "discovered p") simp_all
  with length_discovered [of p] show ?thesis
    by (auto simp: collected_fields attaching_def counted_def waiting_def todo_discovered
        split: if_splits)
qed

lemma due_of_Cons:
  "due_of cb ((d, cb') # ts) = (if cb' = cb then d # due_of cb ts else due_of cb ts)"
  by (simp add: due_of_def)

lemma lm_inv_armed:
  assumes "attaching 0 s"
  shows "lm_inv (setTimeout Fallback 5000 s)"
  using assms
  by (auto simp: lm_inv_def attaching_def setTimeout_def counted_upd inv_time_def inv_hook_def
      inv_fallback_def inv_grace_def due_simps due_of_Cons dest: counted_le)

lemma init_empty:
  assumes "discovered p = []"
  shows "init p = completeLoading ((new_lm p)\<lparr>fontsThen := None\<rparr>)"
proof -
  from assms have nf: "\<not> hasFonts p" by (auto simp: discovered_def)
  have "(new_lm p)\<lparr>resources := [], fontsThen := None, totalCount := 0\<rparr> =
        (new_lm p)\<lparr>fontsThen := None\<rparr>"
    by (simp add: new_lm_def)
  with assms nf have c: "collectResources (new_lm p) = (new_lm p)\<lparr>fontsThen := None\<rparr>"
    by (simp add: collectResources_new)
  have "totalCount ((new_lm p)\<lparr>fontsThen := None\<rparr>) = 0" by (simp add: new_lm_def)
  then show ?thesis
    unfolding init_def c by (simp add: startLoading_def)
qed

lemma lm_inv_init_empty:
  assumes "discovered p = []"
  shows "lm_inv (init p)"
proof -
  let ?s = "(new_lm p)\<lparr>fontsThen := None\<rparr>"
  have n: "\<not> isComplete ?s" by (simp add: new_lm_def)
  have c: "counted 0 (completeLoading ?s)"
    by (simp add: counted_completeLoading) (simp add: counted_def waiting_def new_lm_def)
  have t: "inv_time (completeLoading ?s)"
    by (rule inv_time_completeLoading) (simp add: inv_time_def new_lm_def)
  have h: "inv_hook (completeLoading ?s)"
    using n by (simp add: inv_hook_def completeLoading_effect due_simps reveals_upd)
               (simp add: new_lm_def due_simps)
  have f: "inv_fallback (completeLoading ?s)"
    using n by (simp add: inv_fallback_def completeLoading_effect) (simp add: new_lm_def)
  have g: "inv_grace (completeLoading ?s)"
    using n by (simp add: inv_grace_def completeLoading_effect) (simp add: new_lm_def)
  from c t h f g show ?thesis
    unfolding init_empty [OF assms] lm_inv_def by simp
qed

lemma init_nonempty:
  assumes "discovered p \<noteq> []"
  shows "init p = setTimeout Fallback 5000
           (foldl (\<lambda>s r. loadResource r s) (collectResources (new_lm p)) (discovered p))"
  using assms by (simp add: init_def startLoading_def collected_fields)

lemma lm_inv_init: "lm_inv (init p)"
proof (cases "discovered p = []")
  case True
  then show ?thesis by (rule lm_inv_init_empty)
next
  case False
  from attaching_collected [OF False]
  have "attaching 0 (foldl (\<lambda>s r. loadResource r s) (collectResources (new_lm p)) (discovered p))"
    by (rule attaching_forEach)
  then show ?thesis unfolding init_nonempty [OF False] by (rule lm_inv_armed)
qed

lemma lm_inv_reachable: "lm_inv (run evs (init p))"
  by (rule lm_inv_run) (rule lm_inv_init)

subsection \<open>Fields no step changes; the hook fires once\<close>

lemma call_frame:
  "totalCount (call cb s) = totalCount s"
  "loadingScreen (call cb s) = loadingScreen s"
  "loadedCount (call cb s) = (if cb = Loaded then Suc (loadedCount s) else loadedCount s)"
  "isComplete s \<Longrightarrow> isComplete (call cb s)"
  by (cases cb; simp add: onResourceLoaded_effect completeLoading_effect
        onLoadingComplete_effect)+

lemma step_frame:
  "totalCount (step e s) = totalCount s"
  "loadingScreen (step e s) = loadingScreen s"
  "isComplete s \<Longrightarrow> isComplete (step e s)"
  "loadedCount (step e s) = loadedCount s \<or> loadedCount (step e s) = Suc (loadedCount s)"
  by (cases e; simp add: call_frame Let_def split: option.split)+

lemma run_frame:
  "totalCount (run evs s) = totalCount s"
  "loadingScreen (run evs s) = loadingScreen s"
  by (induction evs rule: rev_induct; simp add: run_Nil run_snoc step_frame)+

lemma loadResource_frame:
  "totalCount (loadResource r s) = totalCount s"
  "loadingScreen (loadResource r s) = loadingScreen s"
  "loadedCount (loadResource r s) = loadedCount s \<or>
   loadedCount (loadResource r s) = Suc (loadedCount s)"
  by (cases r; simp add: loadImage_def loadStylesheet_def onResourceLoaded_effect)+

lemma forEach_frame:
  "totalCount (foldl (\<lambda>s r. loadResource r s) s rs) = totalCount s"
  "loadingScreen (foldl (\<lambda>s r. loadResource r s) s rs) = loadingScreen s"
  by (induction rs arbitrary: s; simp add: loadResource_frame)+

lemma startLoading_frame:
  "totalCount (startLoading s) = totalCount s"
  "loadingScreen (startLoading s) = loadingScreen s"
  by (simp_all add: startLoading_def completeLoading_effect setTimeout_def forEach_frame)

lemma init_frame:
  "totalCount (init p) = length (discovered p)"
  "loadingScreen (init p) = hasLoadingScreen p"
  unfolding init_def startLoading_frame
  by (simp_all add: collected_fields)

lemma hook_once:
  assumes "lm_inv s"
  shows "length (hookAt s) \<le> 1"
proof (cases "readyAt s")
  case None
  with assms show ?thesis by (simp add: lm_inv_def inv_hook_def)
next
  case (Some t)
  with assms show ?thesis by (auto simp: lm_inv_def inv_hook_def split: if_splits)
qed

lemma late_complete:
  assumes "lm_inv s" and "5000 < now s"
  shows "isComplete s"
proof (rule ccontr)
  assume n: "\<not> isComplete s"
  from assms(1) have "inv_fallback s" "inv_time s" by (simp_all add: lm_inv_def)
  from not_complete_early(1) [OF this n] assms(2) show False by simp
qed

lemma hook_by_5500:
  assumes "lm_inv s" and "5500 < now s"
  shows "length (hookAt s) = 1"
proof -
  from assms have c: "isComplete s" by (simp add: late_complete)
  from assms(1) have h: "inv_hook s" and f: "inv_fallback s" and t: "inv_time s"
    by (simp_all add: lm_inv_def)
  from c h obtain r where r: "readyAt s = Some r" by (cases "readyAt s") (auto simp: inv_hook_def)
  with f have r5: "r \<le> 5000" by (simp add: inv_fallback_def)
  have "due_of Hide (timers s) \<noteq> [r + 500]"
  proof
    assume "due_of Hide (timers s) = [r + 500]"
    then have "(r + 500, Hide) \<in> set (timers s)" by (simp add: mem_due_of)
    from inv_time_mem [OF t this] r5 assms(2) show False by simp
  qed
  with h r show ?thesis by (auto simp: inv_hook_def split: if_splits)
qed

subsection \<open>After the ready transition\<close>

lemma complete_call_frame:
  assumes "isComplete s"
  shows "readyAt (call cb s) = readyAt s" and "fallbackForced (call cb s) = fallbackForced s"
  using assms
  by (cases cb; simp add: onResourceLoaded_effect onLoadingComplete_effect completeLoading_done)+

lemma complete_step_frame:
  assumes "isComplete s"
  shows "readyAt (step e s) = readyAt s" and "fallbackForced (step e s) = fallbackForced s"
  using assms
  by (cases e; simp add: complete_call_frame Let_def split: option.split)+

lemma complete_run_frame:
  assumes "isComplete s"
  shows "isComplete (run evs s) \<and> readyAt (run evs s) = readyAt s \<and>
         fallbackForced (run evs s) = fallbackForced s"
  using assms
  by (induction evs rule: rev_induct)
     (simp_all add: run_Nil run_snoc step_frame complete_step_frame)

lemma settle_enabled:
  assumes "counted 0 s" and "k < length (targets s)" and "\<not> delivered (targets s ! k)"
  shows "step (Settle k ok) s =
           onResourceLoaded (s\<lparr>targets := (targets s)[k := (targets s ! k)\<lparr>delivered := True\<rparr>]\<rparr>)"
  using assms counted_handlers [OF assms(1,2)] by (simp add: Let_def)

lemma forced_is_complete:
  assumes "lm_inv s" and "fallbackForced s"
  shows "isComplete s" and "readyAt s = Some 5000"
proof -
  from assms have f: "inv_fallback s" by (simp add: lm_inv_def)
  with assms(2) show "isComplete s" by (auto simp: inv_fallback_def)
  from f assms(2) show "readyAt s = Some 5000" by (simp add: inv_fallback_def)
qed

lemma incomplete_forced_only:
  assumes "lm_inv s" and "loadedCount s < totalCount s" and "isComplete s"
  shows "fallbackForced s"
proof (rule ccontr)
  assume "\<not> fallbackForced s"
  moreover from assms(2) have "1 \<le> totalCount s" by simp
  moreover from assms(1) have "inv_grace s" by (simp add: lm_inv_def)
  ultimately have "loadedCount s = totalCount s" using assms(3) by (simp add: inv_grace_def)
  with assms(2) show False by simp
qed

lemma fire_fallback:
  assumes "\<not> isComplete s" and "(now s, Fallback) \<in> set (timers s)"
  shows "isComplete (step (Fire (now s) Fallback) s)"
    and "readyAt (step (Fire (now s) Fallback) s) = Some (now s)"
    and "fallbackForced (step (Fire (now s) Fallback) s)"
  using assms by (simp_all add: completeLoading_effect)

lemma hook_shape:
  assumes "lm_inv s" and "readyAt s = Some t"
  shows "if loadingScreen s
         then (hookAt s = [] \<and> now s \<le> t + 500) \<or> (hookAt s = [t + 500] \<and> t + 500 \<le> now s)
         else hookAt s = [t]"
proof -
  from assms(1) have h: "inv_hook s" and tm: "inv_time s" by (simp_all add: lm_inv_def)
  show ?thesis
  proof (cases "loadingScreen s")
    case False
    with h assms(2) show ?thesis by (simp add: inv_hook_def)
  next
    case True
    with h assms(2) have
      d: "(hookAt s = [] \<and> due_of Hide (timers s) = [t + 500]) \<or>
          (hookAt s = [t + 500] \<and> t + 500 \<le> now s)"
      by (auto simp: inv_hook_def)
    have "due_of Hide (timers s) = [t + 500] \<longrightarrow> now s \<le> t + 500"
    proof
      assume "due_of Hide (timers s) = [t + 500]"
      then have "(t + 500, Hide) \<in> set (timers s)" by (simp add: mem_due_of)
      from inv_time_mem [OF tm this] show "now s \<le> t + 500" by simp
    qed
    with d True show ?thesis by auto
  qed
qed

subsection \<open>Status message\<close>

lemma messages_nth_cases:
  assumes "0 \<le> i" and "i \<le> 3"
  shows "messages ! nat i \<noteq> [] \<and> messages ! nat i \<noteq> ''Loading...'' \<and> messages ! nat i \<in> set messages"
proof -
  from assms have "i = 0 \<or> i = 1 \<or> i = 2 \<or> i = 3" by arith
  then show ?thesis by (auto simp: messages_def)
qed

lemma index_floor_bounds:
  fixes q :: rat
  assumes "0 \<le> q" and "q \<le> 100"
  shows "0 \<le> \<lfloor>3 * q / 100\<rfloor>" and "\<lfloor>3 * q / 100\<rfloor> \<le> 3"
proof -
  from assms show "0 \<le> \<lfloor>3 * q / 100\<rfloor>" by (simp add: le_floor_iff)
  from assms have "3 * q / 100 < 4" by simp
  then have "\<lfloor>3 * q / 100\<rfloor> < 4" by (simp add: floor_less_iff)
  then show "\<lfloor>3 * q / 100\<rfloor> \<le> 3" by simp
qed

subsection \<open>Concrete pages\<close>

lemmas eval_defs = run_def init_def new_lm_def collectResources_def startLoading_def
  loadImage_def loadStylesheet_def setTimeout_def onResourceLoaded_def updateProgress_def
  completeLoading_def onLoadingComplete_def triggerEntranceAnimations_def js_quot_def
  messageIndex_def messages_def Let_def upt_conv_Cons

subsection \<open>Grace path and empty page\<close>

lemma grace_fired:
  assumes "lm_inv s" and "1 \<le> totalCount s" and "loadedCount s = totalCount s"
    and "lastSettled s + 500 < now s"
  shows "isComplete s" and "due_of Grace (timers s) = []"
proof -
  from assms(1) have g: "inv_grace s" and t: "inv_time s" by (simp_all add: lm_inv_def)
  have n: "due_of Grace (timers s) \<noteq> [lastSettled s + 500]"
  proof
    assume "due_of Grace (timers s) = [lastSettled s + 500]"
    then have "(lastSettled s + 500, Grace) \<in> set (timers s)" by (simp add: mem_due_of)
    from inv_time_mem [OF t this] assms(4) show False by simp
  qed
  from g assms(2,3) n show "isComplete s" by (auto simp: inv_grace_def)
  from g assms(2,3) n show "due_of Grace (timers s) = []" by (auto simp: inv_grace_def)
qed

lemma unforced_ready:
  assumes "lm_inv s" and "1 \<le> totalCount s" and "isComplete s" and "\<not> fallbackForced s"
  shows "readyAt s = Some (lastSettled s + 500)" and "loadedCount s = totalCount s"
  using assms by (simp_all add: lm_inv_def inv_grace_def)

lemma forced_late:
  assumes "lm_inv s" and "fallbackForced s" and "loadedCount s = totalCount s"
  shows "5000 \<le> lastSettled s + 500" and "5000 \<le> now s"
  using assms by (simp_all add: lm_inv_def inv_grace_def inv_fallback_def)

lemma ready_not_late:
  assumes "lm_inv s" and "readyAt s = Some t"
  shows "t \<le> 5000" and "t \<le> now s" and "isComplete s"
  using assms by (auto simp: lm_inv_def inv_fallback_def inv_hook_def)

lemma closed_gate:
  assumes "lm_inv s" and "\<not> isComplete s"
  shows "readyAt s = None" and "hookAt s = []"
  using assms by (auto simp: lm_inv_def inv_hook_def)

lemma init_empty_fields:
  assumes "totalCount (collectResources (new_lm p)) = 0"
  shows "init p = completeLoading ((new_lm p)\<lparr>fontsThen := None\<rparr>)"
    and "isComplete (init p)" and "readyAt (init p) = Some 0" and "now (init p) = 0"
    and "targets (init p) = []" and "fontsThen (init p) = None"
    and "sinkCalls (init p) = []"
    and "timers (init p) = (if hasLoadingScreen p then [(500, Hide)] else reveals (new_lm p))"
    and "hookAt (init p) = (if hasLoadingScreen p then [] else [0])"
proof -
  from assms have d: "discovered p = []" by (simp add: collected_fields)
  show e: "init p = completeLoading ((new_lm p)\<lparr>fontsThen := None\<rparr>)"
    using d by (rule init_empty)
  have n: "\<not> isComplete ((new_lm p)\<lparr>fontsThen := None\<rparr>)" by (simp add: new_lm_def)
  show "isComplete (init p)" unfolding e by (simp add: completeLoading_effect)
  show "readyAt (init p) = Some 0" unfolding e
    using n by (simp add: completeLoading_effect) (simp add: new_lm_def)
  show "now (init p) = 0" unfolding e by (simp add: completeLoading_effect) (simp add: new_lm_def)
  show "targets (init p) = []" unfolding e
    by (simp add: completeLoading_count_effect) (simp add: new_lm_def)
  show "fontsThen (init p) = None" unfolding e by (simp add: completeLoading_count_effect)
  show "sinkCalls (init p) = []" unfolding e
    by (simp add: completeLoading_count_effect) (simp add: new_lm_def)
  show "timers (init p) = (if hasLoadingScreen p then [(500, Hide)] else reveals (new_lm p))"
    unfolding e using n
    by (simp add: completeLoading_effect reveals_upd) (simp add: new_lm_def)
  show "hookAt (init p) = (if hasLoadingScreen p then [] else [0])"
    unfolding e using n by (simp add: completeLoading_effect) (simp add: new_lm_def)
qed

subsection \<open>Progress values\<close>

lemma percent_pos: "0 < n \<Longrightarrow> percent k n = Finite (100 * (rat_of_nat k / rat_of_nat n))"
  by (simp add: percent_def js_quot_def)

lemma progress_log:
  assumes "lm_inv s"
  shows "sinkCalls s =
           map (\<lambda>k. Finite (100 * (rat_of_nat k / rat_of_nat (totalCount s))))
               [1 ..< Suc (loadedCount s)]"
    and "loadedCount s \<le> totalCount s"
proof -
  from assms have c: "counted 0 s" by (simp add: lm_inv_def)
  then show le: "loadedCount s \<le> totalCount s" by (rule counted_le)
  from c have sc: "sinkCalls s = map (\<lambda>k. percent k (totalCount s)) [1 ..< Suc (loadedCount s)]"
    by (simp add: counted_def)
  show "sinkCalls s =
           map (\<lambda>k. Finite (100 * (rat_of_nat k / rat_of_nat (totalCount s))))
               [1 ..< Suc (loadedCount s)]"
  proof (cases "totalCount s = 0")
    case True
    with le sc show ?thesis by simp
  next
    case False
    then show ?thesis unfolding sc by (simp add: percent_pos)
  qed
qed

lemma pending_total:
  assumes "lm_inv s"
    and "(k < length (targets s) \<and> \<not> delivered (targets s ! k)) \<or> fontsThen s \<noteq> None"
  shows "1 \<le> totalCount s"
proof -
  from assms(1) have c: "loadedCount s + waiting s = totalCount s"
    by (simp add: lm_inv_def counted_def)
  have "1 \<le> waiting s"
  proof (cases "fontsThen s")
    case (Some cb)
    then show ?thesis by (simp add: waiting_def)
  next
    case None
    with assms(2) have k: "k < length (targets s)" and d: "\<not> delivered (targets s ! k)"
      by simp_all
    from k have "targets s ! k \<in> set (targets s)" by simp
    with d have "filter (\<lambda>t. \<not> delivered t) (targets s) \<noteq> []"
      by (auto simp: filter_empty_conv)
    then have "1 \<le> length (filter (\<lambda>t. \<not> delivered t) (targets s))"
      by (cases "filter (\<lambda>t. \<not> delivered t) (targets s)") simp_all
    then show ?thesis by (simp add: waiting_def)
  qed
  with c show ?thesis by simp
qed

lemma ratio_mono:
  fixes n :: nat
  assumes "k \<le> k'"
  shows "100 * (rat_of_nat k / rat_of_nat n) \<le> 100 * (rat_of_nat k' / rat_of_nat n)"
  using assms by (simp add: divide_right_mono)

lemma ratio_le_100:
  assumes "k \<le> n"
  shows "100 * (rat_of_nat k / rat_of_nat n) \<le> 100"
proof (cases "n = 0")
  case True
  then show ?thesis by simp
next
  case False
  with assms have "rat_of_nat k / rat_of_nat n \<le> 1" by simp
  then show ?thesis by simp
qed

lemma js_min_percent:
  assumes "k \<le> n" and "0 < n"
  shows "js_min (Finite 100) (js_scale 100 (js_quot k n)) = js_scale 100 (js_quot k n)"
proof -
  from assms(2) have q: "js_scale 100 (js_quot k n) = Finite (100 * (rat_of_nat k / rat_of_nat n))"
    by (simp add: js_quot_def)
  from ratio_le_100 [OF assms(1)]
  have "min 100 (100 * (rat_of_nat k / rat_of_nat n)) = 100 * (rat_of_nat k / rat_of_nat n)"
    by (rule min_absorb2)
  then show ?thesis unfolding q by simp
qed

lemma settle_reports:
  assumes "lm_inv s" and "k < length (targets s)" and "\<not> delivered (targets s ! k)"
  shows "sinkCalls (step (Settle k ok) s) =
           sinkCalls s @ [percent (Suc (loadedCount s)) (totalCount s)]"
    and "loadedCount (step (Settle k ok) s) = Suc (loadedCount s)"
    and "totalCount (step (Settle k ok) s) = totalCount s"
proof -
  from assms(1) have "counted 0 s" by (simp add: lm_inv_def)
  note st = settle_enabled [OF this assms(2,3), of ok]
  show "sinkCalls (step (Settle k ok) s) =
           sinkCalls s @ [percent (Suc (loadedCount s)) (totalCount s)]"
    unfolding st by (simp add: onResourceLoaded_count_effect)
  show "loadedCount (step (Settle k ok) s) = Suc (loadedCount s)"
    unfolding st by (simp add: onResourceLoaded_effect)
  show "totalCount (step (Settle k ok) s) = totalCount s" by (rule step_frame)
qed

lemma settle_room:
  assumes "lm_inv s" and "k < length (targets s)" and "\<not> delivered (targets s ! k)"
  shows "loadedCount s < totalCount s"
proof -
  from assms(1) have "counted 0 s" by (simp add: lm_inv_def)
  from counted_less [OF counted_deliver [OF this assms(2,3)]] show ?thesis by simp
qed

lemma settle_disabled:
  assumes "\<not> (k < length (targets s) \<and> \<not> delivered (targets s ! k))"
  shows "step (Settle k ok) s = s"
  using assms by auto

lemma fonts_reports:
  assumes "lm_inv s" and "fontsThen s \<noteq> None"
  shows "sinkCalls (step FontsReady s) =
           sinkCalls s @ [percent (Suc (loadedCount s)) (totalCount s)]"
    and "loadedCount (step FontsReady s) = Suc (loadedCount s)"
    and "totalCount (step FontsReady s) = totalCount s"
    and "fontsThen (step FontsReady s) = None"
    and "loadedCount s < totalCount s"
proof -
  from assms(2) obtain cb where cb: "fontsThen s = Some cb" by auto
  from assms(1) have c: "counted 0 s" by (simp add: lm_inv_def)
  from counted_fonts [OF c cb] have c1: "counted (Suc 0) (s\<lparr>fontsThen := None\<rparr>)"
    and l: "cb = Loaded" by simp_all
  from cb l have st: "step FontsReady s = onResourceLoaded (s\<lparr>fontsThen := None\<rparr>)" by simp
  show "sinkCalls (step FontsReady s) =
           sinkCalls s @ [percent (Suc (loadedCount s)) (totalCount s)]"
    unfolding st by (simp add: onResourceLoaded_count_effect)
  show "loadedCount (step FontsReady s) = Suc (loadedCount s)"
    unfolding st by (simp add: onResourceLoaded_effect)
  show "totalCount (step FontsReady s) = totalCount s" by (rule step_frame)
  show "fontsThen (step FontsReady s) = None"
    unfolding st by (simp add: onResourceLoaded_count_effect)
  from counted_less [OF c1] show "loadedCount s < totalCount s" by simp
qed

lemma fonts_disabled:
  assumes "fontsThen s = None"
  shows "step FontsReady s = s"
  using assms by simp

lemma quiet_call:
  "cb \<noteq> Loaded \<Longrightarrow> sinkCalls (call cb s) = sinkCalls s"
  by (cases cb) (simp_all add: completeLoading_count_effect onLoadingComplete_count_effect)

lemma quiet_steps:
  assumes "lm_inv s"
  shows "sinkCalls (step (Fire d cb) s) = sinkCalls s"
    and "sinkCalls (step (Advance d) s) = sinkCalls s"
proof -
  from assms have t: "inv_time s" by (simp add: lm_inv_def)
  show "sinkCalls (step (Fire d cb) s) = sinkCalls s"
  proof (cases "(d, cb) \<in> set (timers s) \<and> d \<le> now s")
    case True
    with inv_time_mem [OF t, of d cb] have "cb \<noteq> Loaded" by simp
    with True show ?thesis by (simp add: quiet_call)
  next
    case False
    then show ?thesis by auto
  qed
  show "sinkCalls (step (Advance d) s) = sinkCalls s" by simp
qed

subsection \<open>Counters\<close>

lemma attaching_prefix:
  "attaching (todo (xs @ ys)) s \<Longrightarrow> attaching (todo ys) (foldl (\<lambda>s r. loadResource r s) s xs)"
proof (induction xs arbitrary: s)
  case Nil
  then show ?case by simp
next
  case (Cons x xs)
  from Cons.prems have "attaching (todo (x # (xs @ ys))) s" by simp
  then have "attaching (todo (xs @ ys)) (loadResource x s)" by (rule attaching_loadResource)
  then show ?case by (simp add: Cons.IH)
qed

lemma forEach_bounded:
  "loadedCount (foldl (\<lambda>s r. loadResource r s) (collectResources (new_lm p))
                  (take j (discovered p)))
     \<le> totalCount (collectResources (new_lm p))"
proof (cases "discovered p = []")
  case True
  then show ?thesis by (simp add: collected_fields)
next
  case False
  from attaching_collected [OF False]
  have "attaching (todo (take j (discovered p) @ drop j (discovered p)))
          (collectResources (new_lm p))"
    by simp
  then have "attaching (todo (drop j (discovered p)))
          (foldl (\<lambda>s r. loadResource r s) (collectResources (new_lm p)) (take j (discovered p)))"
    by (rule attaching_prefix)
  then have "counted (todo (drop j (discovered p)))
          (foldl (\<lambda>s r. loadResource r s) (collectResources (new_lm p)) (take j (discovered p)))"
    by (simp add: attaching_def)
  from counted_le [OF this] show ?thesis by (simp add: forEach_frame)
qed

lemma timers_keep_count:
  assumes "lm_inv s"
  shows "loadedCount (step (Fire d cb) s) = loadedCount s"
    and "loadedCount (step (Advance d) s) = loadedCount s"
proof -
  from assms have t: "inv_time s" by (simp add: lm_inv_def)
  show "loadedCount (step (Fire d cb) s) = loadedCount s"
  proof (cases "(d, cb) \<in> set (timers s) \<and> d \<le> now s")
    case True
    with inv_time_mem [OF t, of d cb] have "cb \<noteq> Loaded" by simp
    with True show ?thesis by (simp add: call_frame)
  next
    case False
    then show ?thesis by auto
  qed
  show "loadedCount (step (Advance d) s) = loadedCount s" by simp
qed

subsection \<open>Failures are settlements\<close>






section \<open>The claims\<close>

text \<open>
  Claim C1.  For every page and every sequence of browser events (settlements, the fonts
  promise, timers, passing time), \<open>onLoadingComplete\<close> has run at most once, and once the
  clock has passed 5500 ms it has run exactly once.  \<open>completeLoading\<close> is idempotent: it
  leaves \<open>isComplete\<close> set, a call that finds \<open>isComplete\<close> set returns the state
  unchanged, and so a second call changes nothing.
\<close>

theorem ready_hook_exactly_once:
  "length (hookAt (run evs (init p))) \<le> 1 \<and>
   (5500 < now (run evs (init p)) \<longrightarrow> length (hookAt (run evs (init p))) = 1) \<and>
   isComplete (completeLoading s) \<and>
   (isComplete s \<longrightarrow> completeLoading s = s) \<and>
   completeLoading (completeLoading s) = completeLoading s"
proof -
  have i: "lm_inv (run evs (init p))" by (rule lm_inv_reachable)
  have a: "length (hookAt (run evs (init p))) \<le> 1" using i by (rule hook_once)
  have b: "5500 < now (run evs (init p)) \<longrightarrow> length (hookAt (run evs (init p))) = 1"
    using i by (blast intro: hook_by_5500)
  have c: "isComplete (completeLoading s)" by (simp add: completeLoading_effect)
  have d: "isComplete s \<longrightarrow> completeLoading s = s" by (simp add: completeLoading_done)
  have e: "completeLoading (completeLoading s) = completeLoading s"
    using c by (rule completeLoading_done)
  from a b c d e show ?thesis by blast
qed

theorem ready_hook_exactly_once_witness:
  "5500 < now (run [Advance 5000, Fire 5000 Fallback, Advance 500, Fire 5500 Hide,
                    Fire 5500 (Reveal 0), Advance 1] (init page_one_image)) \<and>
   length (hookAt (run [Advance 5000, Fire 5000 Fallback, Advance 500, Fire 5500 Hide,
                    Fire 5500 (Reveal 0), Advance 1] (init page_one_image))) = 1"
proof -
  let ?evs = "[Advance 5000, Fire 5000 Fallback, Advance 500, Fire 5500 Hide,
               Fire 5500 (Reveal 0), Advance 1]"
  have n: "5500 < now (run ?evs (init page_one_image))"
    by (simp add: eval_defs page_one_image_def)
  with ready_hook_exactly_once [of ?evs page_one_image] show ?thesis by blast
qed

text \<open>
  Claim C2.  Let \<open>s\<close> be any state the browser can reach.  If fewer than \<open>totalCount\<close>
  resources have settled in \<open>s\<close> and the clock has reached 5000 ms, then either the ready
  transition has been made, and then it was made at 5000 ms by the fallback timer, or the
  clock stands at 5000 ms with the fallback timer pending, and running it makes the
  transition at 5000 ms.  Once the fallback timer has forced the transition, in every later
  state \<open>s'\<close> the transition time is still 5000 ms and the Ready Hook has run at most once
  (at 5000 ms, or at 5500 ms after the fade-out when the page has a loading screen); a
  settlement that arrives then still runs \<open>onResourceLoaded\<close> (the counter advances) and
  does not run the hook.
\<close>

theorem fallback_forces_ready:
  assumes "s = run evs (init p)" and "s' = run evs' s"
  shows "(loadedCount s < totalCount s \<and> 5000 \<le> now s \<longrightarrow>
            (if isComplete s then readyAt s = Some 5000 \<and> fallbackForced s
             else now s = 5000 \<and> (5000, Fallback) \<in> set (timers s) \<and>
                  isComplete (step (Fire 5000 Fallback) s) \<and>
                  readyAt (step (Fire 5000 Fallback) s) = Some 5000 \<and>
                  fallbackForced (step (Fire 5000 Fallback) s))) \<and>
         (fallbackForced s \<longrightarrow>
            isComplete s' \<and> readyAt s' = Some 5000 \<and> fallbackForced s' \<and>
            length (hookAt s') \<le> 1 \<and>
            (hookAt s' = [] \<or> hookAt s' = [if hasLoadingScreen p then 5500 else 5000]) \<and>
            (k < length (targets s') \<and> \<not> delivered (targets s' ! k) \<longrightarrow>
               loadedCount (step (Settle k ok) s') = Suc (loadedCount s') \<and>
               hookAt (step (Settle k ok) s') = hookAt s' \<and>
               readyAt (step (Settle k ok) s') = Some 5000))"
proof -
  have i: "lm_inv s" unfolding assms(1) by (rule lm_inv_reachable)
  have "s' = run (evs @ evs') (init p)" by (simp add: assms run_append)
  then have i': "lm_inv s'" by (simp add: lm_inv_reachable)
  have ls': "loadingScreen s' = hasLoadingScreen p"
    by (simp add: assms run_frame init_frame)
  have a: "loadedCount s < totalCount s \<and> 5000 \<le> now s \<longrightarrow>
            (if isComplete s then readyAt s = Some 5000 \<and> fallbackForced s
             else now s = 5000 \<and> (5000, Fallback) \<in> set (timers s) \<and>
                  isComplete (step (Fire 5000 Fallback) s) \<and>
                  readyAt (step (Fire 5000 Fallback) s) = Some 5000 \<and>
                  fallbackForced (step (Fire 5000 Fallback) s))"
  proof (intro impI, elim conjE)
    assume l: "loadedCount s < totalCount s" and n: "5000 \<le> now s"
    show "if isComplete s then readyAt s = Some 5000 \<and> fallbackForced s
          else now s = 5000 \<and> (5000, Fallback) \<in> set (timers s) \<and>
               isComplete (step (Fire 5000 Fallback) s) \<and>
               readyAt (step (Fire 5000 Fallback) s) = Some 5000 \<and>
               fallbackForced (step (Fire 5000 Fallback) s)"
    proof (cases "isComplete s")
      case True
      from incomplete_forced_only [OF i l True] have ff: "fallbackForced s" .
      with forced_is_complete(2) [OF i] True show ?thesis by simp
    next
      case False
      from i have "inv_fallback s" "inv_time s" by (simp_all add: lm_inv_def)
      from not_complete_early [OF this False] n
      have e: "now s = 5000" and m: "(5000, Fallback) \<in> set (timers s)" by simp_all
      from m e have m': "(now s, Fallback) \<in> set (timers s)" by simp
      from fire_fallback [OF False m'] e m False show ?thesis by simp
    qed
  qed
  have b: "fallbackForced s \<longrightarrow>
            isComplete s' \<and> readyAt s' = Some 5000 \<and> fallbackForced s' \<and>
            length (hookAt s') \<le> 1 \<and>
            (hookAt s' = [] \<or> hookAt s' = [if hasLoadingScreen p then 5500 else 5000]) \<and>
            (k < length (targets s') \<and> \<not> delivered (targets s' ! k) \<longrightarrow>
               loadedCount (step (Settle k ok) s') = Suc (loadedCount s') \<and>
               hookAt (step (Settle k ok) s') = hookAt s' \<and>
               readyAt (step (Settle k ok) s') = Some 5000)"
  proof
    assume ff: "fallbackForced s"
    from forced_is_complete [OF i ff] have c: "isComplete s" and r: "readyAt s = Some 5000" .
    from complete_run_frame [OF c, of evs'] ff r
    have c': "isComplete s'" and r': "readyAt s' = Some 5000" and ff': "fallbackForced s'"
      by (simp_all add: assms(2))
    have h1: "length (hookAt s') \<le> 1" using i' by (rule hook_once)
    from hook_shape [OF i' r'] ls'
    have h2: "hookAt s' = [] \<or> hookAt s' = [if hasLoadingScreen p then 5500 else 5000]"
      by (auto split: if_splits)
    have h3: "k < length (targets s') \<and> \<not> delivered (targets s' ! k) \<longrightarrow>
               loadedCount (step (Settle k ok) s') = Suc (loadedCount s') \<and>
               hookAt (step (Settle k ok) s') = hookAt s' \<and>
               readyAt (step (Settle k ok) s') = Some 5000"
    proof (intro impI, elim conjE)
      assume k: "k < length (targets s')" and d: "\<not> delivered (targets s' ! k)"
      from i' have "counted 0 s'" by (simp add: lm_inv_def)
      from settle_enabled [OF this k d, of ok] r'
      show "loadedCount (step (Settle k ok) s') = Suc (loadedCount s') \<and>
            hookAt (step (Settle k ok) s') = hookAt s' \<and>
            readyAt (step (Settle k ok) s') = Some 5000"
        by (simp add: onResourceLoaded_effect)
    qed
    from c' r' ff' h1 h2 h3
    show "isComplete s' \<and> readyAt s' = Some 5000 \<and> fallbackForced s' \<and>
            length (hookAt s') \<le> 1 \<and>
            (hookAt s' = [] \<or> hookAt s' = [if hasLoadingScreen p then 5500 else 5000]) \<and>
            (k < length (targets s') \<and> \<not> delivered (targets s' ! k) \<longrightarrow>
               loadedCount (step (Settle k ok) s') = Suc (loadedCount s') \<and>
               hookAt (step (Settle k ok) s') = hookAt s' \<and>
               readyAt (step (Settle k ok) s') = Some 5000)"
      by blast
  qed
  from a b show ?thesis by blast
qed

theorem fallback_forces_ready_witness:
  "loadedCount (run [Advance 5000, Fire 5000 Fallback] (init page_one_image))
     < totalCount (run [Advance 5000, Fire 5000 Fallback] (init page_one_image)) \<and>
   5000 \<le> now (run [Advance 5000, Fire 5000 Fallback] (init page_one_image)) \<and>
   fallbackForced (run [Advance 5000, Fire 5000 Fallback] (init page_one_image)) \<and>
   readyAt (run [Advance 5000, Fire 5000 Fallback] (init page_one_image)) = Some 5000 \<and>
   readyAt (step (Settle 0 False) (run [Advance 500, Fire 5500 Hide]
      (run [Advance 5000, Fire 5000 Fallback] (init page_one_image)))) = Some 5000 \<and>
   hookAt (step (Settle 0 False) (run [Advance 500, Fire 5500 Hide]
      (run [Advance 5000, Fire 5000 Fallback] (init page_one_image)))) = [5500]"
proof -
  let ?s = "run [Advance 5000, Fire 5000 Fallback] (init page_one_image)"
  let ?s' = "run [Advance 500, Fire 5500 Hide] ?s"
  have e: "loadedCount ?s < totalCount ?s \<and> 5000 \<le> now ?s \<and> fallbackForced ?s \<and> isComplete ?s"
    by (simp add: eval_defs page_one_image_def)
  have k: "0 < length (targets ?s') \<and> \<not> delivered (targets ?s' ! 0) \<and> hookAt ?s' \<noteq> []"
    by (simp add: eval_defs page_one_image_def)
  have l: "hasLoadingScreen page_one_image" by (simp add: page_one_image_def)
  from fallback_forces_ready [OF refl refl, of "[Advance 5000, Fire 5000 Fallback]" page_one_image
      "[Advance 500, Fire 5500 Hide]" 0 False] e k l
  show ?thesis by auto
qed

text \<open>
  Claim C3, as amended.  Let all \<open>n \<ge> 1\<close> resources have settled, the last one at time
  \<open>ts = lastSettled s\<close>.  If \<open>ts + 500 < 5000\<close>: before \<open>ts + 500\<close> the gate is closed and
  the hook has not run; after \<open>ts + 500\<close> the ready transition has been made at exactly
  \<open>ts + 500\<close> and not by the fallback timer; the Ready Hook has run at \<open>ts + 500\<close> when the
  page has no loading screen, and when it has one the hook runs 500 ms later, at
  \<open>ts + 1000\<close>.  If \<open>5000 < ts + 500\<close>, the fallback timer makes the transition at 5000 ms.
  (The claim as stated, with the hook at \<open>ts + 500\<close> for every \<open>ts < 5000\<close>, fails: see the
  two runs of the counterexample.)
\<close>

theorem grace_path_timing:
  assumes "s = run evs (init p)" and "1 \<le> totalCount s" and "loadedCount s = totalCount s"
  shows "(lastSettled s + 500 < 5000 \<longrightarrow>
            (now s < lastSettled s + 500 \<longrightarrow> \<not> isComplete s \<and> hookAt s = []) \<and>
            (lastSettled s + 500 < now s \<longrightarrow>
               isComplete s \<and> readyAt s = Some (lastSettled s + 500) \<and> \<not> fallbackForced s \<and>
               (if hasLoadingScreen p
                then (hookAt s = [] \<and> now s \<le> lastSettled s + 1000) \<or>
                     hookAt s = [lastSettled s + 1000]
                else hookAt s = [lastSettled s + 500]))) \<and>
         (5000 < lastSettled s + 500 \<and> 5000 < now s \<longrightarrow>
            isComplete s \<and> readyAt s = Some 5000 \<and> fallbackForced s)"
proof -
  have i: "lm_inv s" unfolding assms(1) by (rule lm_inv_reachable)
  have ls: "loadingScreen s = hasLoadingScreen p" by (simp add: assms(1) run_frame init_frame)
  have a: "lastSettled s + 500 < 5000 \<longrightarrow> now s < lastSettled s + 500 \<longrightarrow>
             \<not> isComplete s \<and> hookAt s = []"
  proof (intro impI)
    assume e: "lastSettled s + 500 < 5000" and b: "now s < lastSettled s + 500"
    have n: "\<not> isComplete s"
    proof
      assume c: "isComplete s"
      show False
      proof (cases "fallbackForced s")
        case True
        from forced_late(2) [OF i True assms(3)] e b show False by simp
      next
        case False
        from unforced_ready(1) [OF i assms(2) c False]
        have "readyAt s = Some (lastSettled s + 500)" .
        from ready_not_late(2) [OF i this] b show False by simp
      qed
    qed
    with closed_gate(2) [OF i] show "\<not> isComplete s \<and> hookAt s = []" by simp
  qed
  have b: "lastSettled s + 500 < 5000 \<longrightarrow> lastSettled s + 500 < now s \<longrightarrow>
             isComplete s \<and> readyAt s = Some (lastSettled s + 500) \<and> \<not> fallbackForced s \<and>
             (if hasLoadingScreen p
              then (hookAt s = [] \<and> now s \<le> lastSettled s + 1000) \<or>
                   hookAt s = [lastSettled s + 1000]
              else hookAt s = [lastSettled s + 500])"
  proof (intro impI)
    assume e: "lastSettled s + 500 < 5000" and l: "lastSettled s + 500 < now s"
    from grace_fired(1) [OF i assms(2,3) l] have c: "isComplete s" .
    have nf: "\<not> fallbackForced s"
    proof
      assume "fallbackForced s"
      from forced_late(1) [OF i this assms(3)] e show False by simp
    qed
    from unforced_ready(1) [OF i assms(2) c nf]
    have r: "readyAt s = Some (lastSettled s + 500)" .
    from hook_shape [OF i r] ls
    have "if hasLoadingScreen p
          then (hookAt s = [] \<and> now s \<le> lastSettled s + 1000) \<or>
               hookAt s = [lastSettled s + 1000]
          else hookAt s = [lastSettled s + 500]"
      by (auto split: if_splits)
    with c r nf show "isComplete s \<and> readyAt s = Some (lastSettled s + 500) \<and>
        \<not> fallbackForced s \<and>
        (if hasLoadingScreen p
         then (hookAt s = [] \<and> now s \<le> lastSettled s + 1000) \<or>
              hookAt s = [lastSettled s + 1000]
         else hookAt s = [lastSettled s + 500])"
      by blast
  qed
  have c: "5000 < lastSettled s + 500 \<and> 5000 < now s \<longrightarrow>
             isComplete s \<and> readyAt s = Some 5000 \<and> fallbackForced s"
  proof (intro impI, elim conjE)
    assume e: "5000 < lastSettled s + 500" and l: "5000 < now s"
    from late_complete [OF i l] have c: "isComplete s" .
    have ff: "fallbackForced s"
    proof (rule ccontr)
      assume nf: "\<not> fallbackForced s"
      from unforced_ready(1) [OF i assms(2) c nf]
      have "readyAt s = Some (lastSettled s + 500)" .
      from ready_not_late(1) [OF i this] e show False by simp
    qed
    from c ff forced_is_complete(2) [OF i ff]
    show "isComplete s \<and> readyAt s = Some 5000 \<and> fallbackForced s" by simp
  qed
  from a b c show ?thesis by blast
qed

theorem grace_path_timing_witness:
  "1 \<le> totalCount (run [Advance 100, Settle 0 False, Advance 500, Fire 600 Grace, Advance 1]
                        (init page_one_image)) \<and>
   loadedCount (run [Advance 100, Settle 0 False, Advance 500, Fire 600 Grace, Advance 1]
                        (init page_one_image)) =
   totalCount (run [Advance 100, Settle 0 False, Advance 500, Fire 600 Grace, Advance 1]
                        (init page_one_image)) \<and>
   lastSettled (run [Advance 100, Settle 0 False, Advance 500, Fire 600 Grace, Advance 1]
                        (init page_one_image)) = 100 \<and>
   now (run [Advance 100, Settle 0 False, Advance 500, Fire 600 Grace, Advance 1]
                        (init page_one_image)) = 601 \<and>
   readyAt (run [Advance 100, Settle 0 False, Advance 500, Fire 600 Grace, Advance 1]
                        (init page_one_image)) = Some 600 \<and>
   \<not> fallbackForced (run [Advance 100, Settle 0 False, Advance 500, Fire 600 Grace, Advance 1]
                        (init page_one_image))"
proof -
  let ?s = "run [Advance 100, Settle 0 False, Advance 500, Fire 600 Grace, Advance 1]
              (init page_one_image)"
  have e: "1 \<le> totalCount ?s \<and> loadedCount ?s = totalCount ?s \<and> lastSettled ?s = 100 \<and>
           now ?s = 601"
    by (simp add: eval_defs page_one_image_def)
  then have h1: "1 \<le> totalCount ?s" and h2: "loadedCount ?s = totalCount ?s" by simp_all
  from grace_path_timing [OF refl h1 h2] e show ?thesis by simp
qed

theorem grace_path_timing_counterexample:
  "loadedCount (run [Advance 4600, Settle 0 True, Advance 400, Fire 5000 Fallback]
                  (init page_bare_image)) = 1 \<and>
   totalCount (run [Advance 4600, Settle 0 True, Advance 400, Fire 5000 Fallback]
                  (init page_bare_image)) = 1 \<and>
   lastSettled (run [Advance 4600, Settle 0 True, Advance 400, Fire 5000 Fallback]
                  (init page_bare_image)) = 4600 \<and>
   now (run [Advance 4600, Settle 0 True, Advance 400, Fire 5000 Fallback]
                  (init page_bare_image)) = 5000 \<and>
   fallbackForced (run [Advance 4600, Settle 0 True, Advance 400, Fire 5000 Fallback]
                  (init page_bare_image)) \<and>
   hookAt (run [Advance 4600, Settle 0 True, Advance 400, Fire 5000 Fallback]
                  (init page_bare_image)) = [5000] \<and>
   hookAt (run [Advance 4600, Settle 0 True, Advance 400, Fire 5000 Fallback]
                  (init page_bare_image)) \<noteq> [4600 + 500] \<and>
   lastSettled (run [Advance 100, Settle 0 True, Advance 500, Fire 600 Grace,
                     Advance 500, Fire 1100 Hide] (init page_one_image)) = 100 \<and>
   \<not> fallbackForced (run [Advance 100, Settle 0 True, Advance 500, Fire 600 Grace,
                     Advance 500, Fire 1100 Hide] (init page_one_image)) \<and>
   hookAt (run [Advance 100, Settle 0 True, Advance 500, Fire 600 Grace]
                     (init page_one_image)) = [] \<and>
   hookAt (run [Advance 100, Settle 0 True, Advance 500, Fire 600 Grace,
                     Advance 500, Fire 1100 Hide] (init page_one_image)) = [1100] \<and>
   hookAt (run [Advance 100, Settle 0 True, Advance 500, Fire 600 Grace,
                     Advance 500, Fire 1100 Hide] (init page_one_image)) \<noteq> [100 + 500]"
  by (simp add: eval_defs page_one_image_def page_bare_image_def)

text \<open>
  Claim C4, as amended.  If discovery finds no resource, the state the constructor returns
  has \<open>isComplete\<close> set at time 0, no event target, no fonts reaction and no fallback
  timer.  The Ready Hook has run in that state when the page has no loading screen; when it
  has one, the hook has not run yet: the only pending timer is the 500 ms fade-out timer,
  the hook has not run in any state before 500 ms, and it has run, at 500 ms, in every
  state after.  (The claim as stated, with the hook fired with no timer wait, fails on a
  page with a loading screen: see the counterexample.)
\<close>

theorem empty_page_ready_at_start:
  assumes "totalCount (collectResources (new_lm p)) = 0"
  shows "isComplete (init p) \<and> readyAt (init p) = Some 0 \<and> now (init p) = 0 \<and>
         targets (init p) = [] \<and> fontsThen (init p) = None \<and>
         filter (\<lambda>t. snd t = Fallback) (timers (init p)) = [] \<and>
         (if hasLoadingScreen p
          then hookAt (init p) = [] \<and> timers (init p) = [(500, Hide)] \<and>
               (now (run evs (init p)) < 500 \<longrightarrow> hookAt (run evs (init p)) = []) \<and>
               (500 < now (run evs (init p)) \<longrightarrow> hookAt (run evs (init p)) = [500]) \<and>
               hookAt (run [Advance 500, Fire 500 Hide] (init p)) = [500]
          else hookAt (init p) = [0])"
proof -
  note f = init_empty_fields(2-) [OF assms]
  have nofb: "filter (\<lambda>t. snd t = Fallback) (timers (init p)) = []"
    unfolding f(7) by (simp add: reveals_def filter_empty_conv)
  have i: "lm_inv (run evs (init p))" by (rule lm_inv_reachable)
  have ls: "loadingScreen (run evs (init p)) = hasLoadingScreen p"
    by (simp add: run_frame init_frame)
  from complete_run_frame [OF f(1), of evs] f(2)
  have r: "readyAt (run evs (init p)) = Some 0" by simp
  have two: "hasLoadingScreen p \<longrightarrow> hookAt (run [Advance 500, Fire 500 Hide] (init p)) = [500]"
  proof
    assume l: "hasLoadingScreen p"
    let ?s = "init p"
    have a: "step (Advance 500) ?s = ?s\<lparr>now := 500\<rparr>"
      using l by (simp add: f)
    have "hookAt (?s\<lparr>now := 500\<rparr>) = []" using l by (simp add: f)
    then have b: "hookAt (step (Fire 500 Hide) (?s\<lparr>now := 500\<rparr>)) = [500]"
      using l by (simp add: f onLoadingComplete_effect)
    have "run [Advance 500, Fire 500 Hide] ?s = step (Fire 500 Hide) (step (Advance 500) ?s)"
      by (simp add: run_def)
    then show "hookAt (run [Advance 500, Fire 500 Hide] (init p)) = [500]"
      by (simp only: a b)
  qed
  show ?thesis
  proof (cases "hasLoadingScreen p")
    case False
    with f nofb show ?thesis by simp
  next
    case True
    from hook_shape [OF i r] ls True
    have "(hookAt (run evs (init p)) = [] \<and> now (run evs (init p)) \<le> 500) \<or>
          (hookAt (run evs (init p)) = [500] \<and> 500 \<le> now (run evs (init p)))"
      by simp
    then have "(now (run evs (init p)) < 500 \<longrightarrow> hookAt (run evs (init p)) = []) \<and>
               (500 < now (run evs (init p)) \<longrightarrow> hookAt (run evs (init p)) = [500])"
      by auto
    with True f nofb two show ?thesis by simp
  qed
qed

theorem empty_page_ready_at_start_witness:
  "totalCount (collectResources (new_lm page_empty)) = 0 \<and> hasLoadingScreen page_empty \<and>
   isComplete (init page_empty) \<and> timers (init page_empty) = [(500, Hide)] \<and>
   500 < now (run [Advance 500, Fire 500 Hide, Fire 500 (Reveal 0), Advance 1] (init page_empty)) \<and>
   hookAt (run [Advance 500, Fire 500 Hide, Fire 500 (Reveal 0), Advance 1] (init page_empty)) = [500]"
proof -
  have h: "totalCount (collectResources (new_lm page_empty)) = 0"
    by (simp add: collectResources_def new_lm_def page_empty_def)
  have l: "hasLoadingScreen page_empty" by (simp add: page_empty_def)
  have n: "500 < now (run [Advance 500, Fire 500 Hide, Fire 500 (Reveal 0), Advance 1]
                       (init page_empty))"
    by (simp add: eval_defs page_empty_def)
  from empty_page_ready_at_start [OF h,
      of "[Advance 500, Fire 500 Hide, Fire 500 (Reveal 0), Advance 1]"] h l n
  show ?thesis by simp
qed

theorem empty_page_ready_at_start_counterexample:
  "totalCount (init page_empty) = 0 \<and> isComplete (init page_empty) \<and>
   now (init page_empty) = 0 \<and> hookAt (init page_empty) = [] \<and>
   timers (init page_empty) = [(500, Hide)] \<and>
   hookAt (run [Advance 499] (init page_empty)) = [] \<and>
   hookAt (run [Advance 500, Fire 500 Hide] (init page_empty)) = [500]"
  by (simp add: eval_defs page_empty_def)

text \<open>
  Claim C5.  In every reachable state the percentages passed to \<open>updateProgress\<close> so far,
  in call order, are non-decreasing with respect to JavaScript's \<open><=\<close>, and each is at
  most 100.
\<close>

theorem progress_nondecreasing:
  "sorted_wrt js_le (sinkCalls (run evs (init p))) \<and>
   list_all (\<lambda>x. js_le x (Finite 100)) (sinkCalls (run evs (init p)))"
proof -
  let ?s = "run evs (init p)"
  have i: "lm_inv ?s" by (rule lm_inv_reachable)
  note l = progress_log [OF i]
  have "sorted_wrt (\<lambda>k k'. js_le (Finite (100 * (rat_of_nat k / rat_of_nat (totalCount ?s))))
                              (Finite (100 * (rat_of_nat k' / rat_of_nat (totalCount ?s)))))
          [1 ..< Suc (loadedCount ?s)]"
  proof (rule sorted_wrt_mono_rel [OF _ sorted_wrt_upt])
    fix k k' :: nat
    assume "k < k'"
    then have "k \<le> k'" by simp
    then show "js_le (Finite (100 * (rat_of_nat k / rat_of_nat (totalCount ?s))))
                     (Finite (100 * (rat_of_nat k' / rat_of_nat (totalCount ?s))))"
      by (simp only: js_le.simps ratio_mono)
  qed
  then have a: "sorted_wrt js_le (sinkCalls ?s)"
    unfolding l(1) by (simp only: sorted_wrt_map)
  have b: "list_all (\<lambda>x. js_le x (Finite 100)) (sinkCalls ?s)"
    unfolding l(1) list_all_iff
  proof
    fix x
    assume "x \<in> set (map (\<lambda>k. Finite (100 * (rat_of_nat k / rat_of_nat (totalCount ?s))))
                        [1 ..< Suc (loadedCount ?s)])"
    then have "x \<in> (\<lambda>k. Finite (100 * (rat_of_nat k / rat_of_nat (totalCount ?s)))) `
                 set [1 ..< Suc (loadedCount ?s)]"
      by (simp only: set_map)
    then obtain k where kk: "k \<in> set [1 ..< Suc (loadedCount ?s)]"
      and x: "x = Finite (100 * (rat_of_nat k / rat_of_nat (totalCount ?s)))"
      by blast
    from kk have k: "k \<le> loadedCount ?s" by auto
    from k l(2) have "k \<le> totalCount ?s" by simp
    then show "js_le x (Finite 100)" unfolding x by (simp only: js_le.simps ratio_le_100)
  qed
  from a b show ?thesis by simp
qed

theorem progress_nondecreasing_witness:
  "sinkCalls (run [Settle 1 False, FontsReady, Settle 0 True] (init page_mixed)) =
     [Finite 25, Finite 50, Finite 75, Finite 100] \<and>
   sorted_wrt js_le (sinkCalls (run [Settle 1 False, FontsReady, Settle 0 True] (init page_mixed))) \<and>
   list_all (\<lambda>x. js_le x (Finite 100))
     (sinkCalls (run [Settle 1 False, FontsReady, Settle 0 True] (init page_mixed)))"
proof -
  have e: "sinkCalls (run [Settle 1 False, FontsReady, Settle 0 True] (init page_mixed)) =
     [Finite 25, Finite 50, Finite 75, Finite 100]"
    by (simp add: eval_defs page_mixed_def)
  from progress_nondecreasing [of "[Settle 1 False, FontsReady, Settle 0 True]" page_mixed] e
  show ?thesis by blast
qed

text \<open>
  Claim C6.  \<open>onResourceLoaded\<close> passes to \<open>updateProgress\<close> the value of
  \<open>(loadedCount / totalCount) * 100\<close> after the increment (lines 906--909).  In every
  reachable state the \<open>k\<close>-th value passed so far is \<open>Math.min(100, (k / totalCount) * 100)\<close>,
  the same expression capped at 100, \<open>k\<close> being the value of \<open>loadedCount\<close> at that call;
  the value an arriving settlement (a target or the fonts promise) reports is that
  expression of the counters of the state it produces; timers and the passing of time
  report nothing.  With \<open>totalCount = 0\<close> nothing is ever reported and the gate is already
  open.  Both sides are built from the operators of the program, so the equality is one of
  values of the same arithmetic and says that the cap never takes effect.
\<close>

theorem progress_value_exact:
  assumes "s = run evs (init p)"
  shows "sinkCalls (onResourceLoaded s0) =
           sinkCalls s0 @ [js_scale 100 (js_quot (loadedCount s0 + 1) (totalCount s0))] \<and>
         sinkCalls s =
           map (\<lambda>k. js_min (Finite 100) (js_scale 100 (js_quot k (totalCount s))))
               [1 ..< Suc (loadedCount s)] \<and>
         (totalCount s = 0 \<longrightarrow> sinkCalls s = [] \<and> isComplete s) \<and>
         (k < length (targets s) \<and> \<not> delivered (targets s ! k) \<longrightarrow>
            sinkCalls (step (Settle k ok) s) =
              sinkCalls s @
              [js_min (Finite 100)
                 (js_scale 100 (js_quot (loadedCount (step (Settle k ok) s))
                                        (totalCount (step (Settle k ok) s))))]) \<and>
         (fontsThen s \<noteq> None \<longrightarrow>
            sinkCalls (step FontsReady s) =
              sinkCalls s @
              [js_min (Finite 100)
                 (js_scale 100 (js_quot (loadedCount (step FontsReady s))
                                        (totalCount (step FontsReady s))))]) \<and>
         sinkCalls (step (Fire d cb) s) = sinkCalls s \<and>
         sinkCalls (step (Advance d) s) = sinkCalls s"
proof -
  have i: "lm_inv s" unfolding assms by (rule lm_inv_reachable)
  have le: "loadedCount s \<le> totalCount s" using i by (rule progress_log(2))
  have z: "sinkCalls (onResourceLoaded s0) =
           sinkCalls s0 @ [js_scale 100 (js_quot (loadedCount s0 + 1) (totalCount s0))]"
    by (simp add: onResourceLoaded_count_effect percent_def)
  from i have sc: "sinkCalls s =
      map (\<lambda>k. js_scale 100 (js_quot k (totalCount s))) [1 ..< Suc (loadedCount s)]"
    by (simp add: lm_inv_def counted_def percent_def)
  have a: "sinkCalls s =
           map (\<lambda>k. js_min (Finite 100) (js_scale 100 (js_quot k (totalCount s))))
               [1 ..< Suc (loadedCount s)]"
    unfolding sc
  proof (rule map_cong [OF refl])
    fix k
    assume "k \<in> set [1 ..< Suc (loadedCount s)]"
    then have "1 \<le> k" and "k \<le> loadedCount s" by auto
    with le have "k \<le> totalCount s" and "0 < totalCount s" by simp_all
    then show "js_scale 100 (js_quot k (totalCount s)) =
               js_min (Finite 100) (js_scale 100 (js_quot k (totalCount s)))"
      by (simp only: js_min_percent)
  qed
  have b: "totalCount s = 0 \<longrightarrow> sinkCalls s = [] \<and> isComplete s"
  proof
    assume t0: "totalCount s = 0"
    with le have "loadedCount s = 0" by simp
    with sc have "sinkCalls s = []" by simp
    moreover from i t0 have "isComplete s" by (auto simp: lm_inv_def inv_fallback_def)
    ultimately show "sinkCalls s = [] \<and> isComplete s" by simp
  qed
  have c: "k < length (targets s) \<and> \<not> delivered (targets s ! k) \<longrightarrow>
            sinkCalls (step (Settle k ok) s) =
              sinkCalls s @
              [js_min (Finite 100)
                 (js_scale 100 (js_quot (loadedCount (step (Settle k ok) s))
                                        (totalCount (step (Settle k ok) s))))]"
  proof (intro impI, elim conjE)
    assume k: "k < length (targets s)" and dl: "\<not> delivered (targets s ! k)"
    note r = settle_reports [OF i k dl, of ok]
    from settle_room [OF i k dl] have "Suc (loadedCount s) \<le> totalCount s"
      and "0 < totalCount s" by simp_all
    from js_min_percent [OF this]
    have "percent (Suc (loadedCount s)) (totalCount s) =
          js_min (Finite 100) (js_scale 100 (js_quot (Suc (loadedCount s)) (totalCount s)))"
      by (simp only: percent_def)
    then show "sinkCalls (step (Settle k ok) s) =
              sinkCalls s @
              [js_min (Finite 100)
                 (js_scale 100 (js_quot (loadedCount (step (Settle k ok) s))
                                        (totalCount (step (Settle k ok) s))))]"
      by (simp only: r)
  qed
  have f: "fontsThen s \<noteq> None \<longrightarrow>
            sinkCalls (step FontsReady s) =
              sinkCalls s @
              [js_min (Finite 100)
                 (js_scale 100 (js_quot (loadedCount (step FontsReady s))
                                        (totalCount (step FontsReady s))))]"
  proof
    assume ft: "fontsThen s \<noteq> None"
    note r = fonts_reports(1-3) [OF i ft]
    from fonts_reports(5) [OF i ft] have "Suc (loadedCount s) \<le> totalCount s"
      and "0 < totalCount s" by simp_all
    from js_min_percent [OF this]
    have "percent (Suc (loadedCount s)) (totalCount s) =
          js_min (Finite 100) (js_scale 100 (js_quot (Suc (loadedCount s)) (totalCount s)))"
      by (simp only: percent_def)
    then show "sinkCalls (step FontsReady s) =
              sinkCalls s @
              [js_min (Finite 100)
                 (js_scale 100 (js_quot (loadedCount (step FontsReady s))
                                        (totalCount (step FontsReady s))))]"
      by (simp only: r)
  qed
  from z a b c f quiet_steps(1) [OF i, of d cb] quiet_steps(2) [OF i, of d]
  show ?thesis by blast
qed

theorem progress_value_exact_witness:
  "0 < length (targets (run [Settle 1 False] (init page_mixed))) \<and>
   \<not> delivered (targets (run [Settle 1 False] (init page_mixed)) ! 0) \<and>
   fontsThen (run [Settle 1 False] (init page_mixed)) \<noteq> None \<and>
   sinkCalls (step (Settle 0 True) (run [Settle 1 False] (init page_mixed))) =
     sinkCalls (run [Settle 1 False] (init page_mixed)) @
     [js_min (Finite 100)
        (js_scale 100
           (js_quot (loadedCount (step (Settle 0 True) (run [Settle 1 False] (init page_mixed))))
                    (totalCount (step (Settle 0 True) (run [Settle 1 False] (init page_mixed))))))] \<and>
   sinkCalls (step FontsReady (run [Settle 1 False] (init page_mixed))) =
     sinkCalls (run [Settle 1 False] (init page_mixed)) @
     [js_min (Finite 100)
        (js_scale 100
           (js_quot (loadedCount (step FontsReady (run [Settle 1 False] (init page_mixed))))
                    (totalCount (step FontsReady (run [Settle 1 False] (init page_mixed))))))] \<and>
   sinkCalls (step FontsReady (run [Settle 1 False] (init page_mixed))) =
     [Finite 25, Finite 50, Finite 75] \<and>
   totalCount (run [] (init page_empty)) = 0 \<and>
   sinkCalls (run [] (init page_empty)) = [] \<and> isComplete (run [] (init page_empty))"
proof -
  let ?s = "run [Settle 1 False] (init page_mixed)"
  have k: "0 < length (targets ?s) \<and> \<not> delivered (targets ?s ! 0) \<and> fontsThen ?s \<noteq> None"
    by (simp add: eval_defs page_mixed_def)
  have v: "sinkCalls (step FontsReady ?s) = [Finite 25, Finite 50, Finite 75]"
    by (simp add: eval_defs page_mixed_def)
  have z: "totalCount (run [] (init page_empty)) = 0"
    by (simp add: eval_defs page_empty_def)
  from progress_value_exact [where evs = "[Settle 1 False]" and p = page_mixed
      and k = 0 and ok = True, OF refl]
    progress_value_exact [where evs = "[]" and p = page_empty, OF refl] k v z
  show ?thesis by blast
qed

text \<open>
  Claim C7.  The counters are natural numbers, so \<open>0 \<le> loadedCount\<close> holds by type.
  \<open>collectResources\<close> leaves \<open>loadedCount = 0\<close>, \<open>isComplete\<close> unset and
  \<open>totalCount\<close> equal to the number of images, stylesheets and the fonts signal.  During the
  \<open>forEach\<close> of \<open>startLoading\<close> and in every state \<open>s\<close> reachable afterwards,
  \<open>loadedCount \<le> totalCount\<close>; every step keeps \<open>totalCount\<close>, leaves \<open>loadedCount\<close> as
  it is or adds one, and never resets \<open>isComplete\<close>; the time recorded for the ready
  transition never changes; and \<open>isComplete\<close> is set in every state after 5000 ms.
  \<open>loadedCount\<close> grows by exactly one per settlement and only then: \<open>onResourceLoaded\<close>
  adds one; a pending target that settles and the fonts promise that resolves add one; a
  parsed stylesheet adds one inside the loop and the other descriptors add nothing there;
  an event for a target that is not pending, a resolved fonts promise, a timer and the
  passing of time add nothing.
\<close>

theorem counters_invariant:
  assumes "s = run evs (init p)"
  shows "loadedCount (collectResources (new_lm p)) = 0 \<and>
         \<not> isComplete (collectResources (new_lm p)) \<and>
         totalCount (collectResources (new_lm p)) =
           length (imgs p) + length (links p) + (if hasFonts p then 1 else 0) \<and>
         loadedCount (foldl (\<lambda>s r. loadResource r s) (collectResources (new_lm p))
                        (take j (discovered p)))
           \<le> totalCount (collectResources (new_lm p)) \<and>
         totalCount (loadResource r s0) = totalCount s0 \<and>
         (loadedCount (loadResource r s0) = loadedCount s0 \<or>
          loadedCount (loadResource r s0) = loadedCount s0 + 1) \<and>
         totalCount s = totalCount (collectResources (new_lm p)) \<and>
         loadedCount s \<le> totalCount s \<and>
         totalCount (step e s) = totalCount s \<and>
         (loadedCount (step e s) = loadedCount s \<or> loadedCount (step e s) = loadedCount s + 1) \<and>
         loadedCount (step (Fire d cb) s) = loadedCount s \<and>
         loadedCount (step (Advance d) s) = loadedCount s \<and>
         (isComplete s \<longrightarrow> isComplete (step e s) \<and> readyAt (step e s) = readyAt s) \<and>
         (isComplete s \<longleftrightarrow> readyAt s \<noteq> None) \<and>
         (5000 < now s \<longrightarrow> isComplete s) \<and>
         loadedCount (onResourceLoaded s0) = loadedCount s0 + 1 \<and>
         loadedCount (loadResource (Stylesheet u True) s0) = loadedCount s0 + 1 \<and>
         loadedCount (loadResource (Stylesheet u False) s0) = loadedCount s0 \<and>
         loadedCount (loadResource (Image u) s0) = loadedCount s0 \<and>
         loadedCount (loadResource Fonts s0) = loadedCount s0 \<and>
         (k < length (targets s) \<and> \<not> delivered (targets s ! k) \<longrightarrow>
            loadedCount (step (Settle k ok) s) = loadedCount s + 1) \<and>
         (\<not> (k < length (targets s) \<and> \<not> delivered (targets s ! k)) \<longrightarrow>
            loadedCount (step (Settle k ok) s) = loadedCount s) \<and>
         (fontsThen s \<noteq> None \<longrightarrow>
            loadedCount (step FontsReady s) = loadedCount s + 1 \<and>
            fontsThen (step FontsReady s) = None) \<and>
         (fontsThen s = None \<longrightarrow> loadedCount (step FontsReady s) = loadedCount s)"
proof -
  have i: "lm_inv s" unfolding assms by (rule lm_inv_reachable)
  have v1: "loadedCount (onResourceLoaded s0) = loadedCount s0 + 1"
    by (simp add: onResourceLoaded_effect)
  have v2: "loadedCount (loadResource (Stylesheet u True) s0) = loadedCount s0 + 1"
    by (simp add: loadStylesheet_def onResourceLoaded_effect)
  have v3: "loadedCount (loadResource (Stylesheet u False) s0) = loadedCount s0"
    by (simp add: loadStylesheet_def)
  have v4: "loadedCount (loadResource (Image u) s0) = loadedCount s0"
    by (simp add: loadImage_def)
  have v5: "loadedCount (loadResource Fonts s0) = loadedCount s0" by simp
  have v6: "k < length (targets s) \<and> \<not> delivered (targets s ! k) \<longrightarrow>
            loadedCount (step (Settle k ok) s) = loadedCount s + 1"
    using settle_reports(2) [OF i, of k ok] by simp
  have v7: "\<not> (k < length (targets s) \<and> \<not> delivered (targets s ! k)) \<longrightarrow>
            loadedCount (step (Settle k ok) s) = loadedCount s"
    using settle_disabled [of k s ok] by simp
  have v8: "fontsThen s \<noteq> None \<longrightarrow>
            loadedCount (step FontsReady s) = loadedCount s + 1 \<and>
            fontsThen (step FontsReady s) = None"
    using fonts_reports(2,4) [OF i] by simp
  have v9: "fontsThen s = None \<longrightarrow> loadedCount (step FontsReady s) = loadedCount s"
    using fonts_disabled [of s] by simp
  have a: "loadedCount (collectResources (new_lm p)) = 0"
    and b: "\<not> isComplete (collectResources (new_lm p))"
    and c: "totalCount (collectResources (new_lm p)) =
           length (imgs p) + length (links p) + (if hasFonts p then 1 else 0)"
    by (simp_all add: collected_fields length_discovered)
  have f: "totalCount (loadResource r s0) = totalCount s0" by (rule loadResource_frame)
  have g: "loadedCount (loadResource r s0) = loadedCount s0 \<or>
          loadedCount (loadResource r s0) = loadedCount s0 + 1"
    using loadResource_frame(3) [of r s0] by simp
  have h: "totalCount s = totalCount (collectResources (new_lm p))"
    by (simp add: assms run_frame init_frame collected_fields)
  have k: "loadedCount s \<le> totalCount s" using i by (rule progress_log(2))
  have l: "totalCount (step e s) = totalCount s" by (rule step_frame)
  have m: "loadedCount (step e s) = loadedCount s \<or> loadedCount (step e s) = loadedCount s + 1"
    using step_frame(4) [of e s] by simp
  have n: "isComplete s \<longrightarrow> isComplete (step e s) \<and> readyAt (step e s) = readyAt s"
    by (simp add: step_frame complete_step_frame)
  have q: "isComplete s \<longleftrightarrow> readyAt s \<noteq> None"
    using i by (simp add: lm_inv_def inv_hook_def)
  have u: "5000 < now s \<longrightarrow> isComplete s" using late_complete [OF i] by blast
  from a b c forEach_bounded [of p j] f g h k l m timers_keep_count(1) [OF i, of d cb]
    timers_keep_count(2) [OF i, of d] n q u
  have old: "loadedCount (collectResources (new_lm p)) = 0 \<and>
         \<not> isComplete (collectResources (new_lm p)) \<and>
         totalCount (collectResources (new_lm p)) =
           length (imgs p) + length (links p) + (if hasFonts p then 1 else 0) \<and>
         loadedCount (foldl (\<lambda>s r. loadResource r s) (collectResources (new_lm p))
                        (take j (discovered p)))
           \<le> totalCount (collectResources (new_lm p)) \<and>
         totalCount (loadResource r s0) = totalCount s0 \<and>
         (loadedCount (loadResource r s0) = loadedCount s0 \<or>
          loadedCount (loadResource r s0) = loadedCount s0 + 1) \<and>
         totalCount s = totalCount (collectResources (new_lm p)) \<and>
         loadedCount s \<le> totalCount s \<and>
         totalCount (step e s) = totalCount s \<and>
         (loadedCount (step e s) = loadedCount s \<or> loadedCount (step e s) = loadedCount s + 1) \<and>
         loadedCount (step (Fire d cb) s) = loadedCount s \<and>
         loadedCount (step (Advance d) s) = loadedCount s \<and>
         (isComplete s \<longrightarrow> isComplete (step e s) \<and> readyAt (step e s) = readyAt s) \<and>
         (isComplete s \<longleftrightarrow> readyAt s \<noteq> None) \<and>
         (5000 < now s \<longrightarrow> isComplete s)"
    by blast
  from old v1 v2 v3 v4 v5 v6 v7 v8 v9 show ?thesis by blast
qed

theorem counters_invariant_witness:
  "5000 < now (run [Advance 5000, Fire 5000 Fallback, Advance 1] (init page_one_image)) \<and>
   isComplete (run [Advance 5000, Fire 5000 Fallback, Advance 1] (init page_one_image)) \<and>
   isComplete (step (Settle 0 True)
                 (run [Advance 5000, Fire 5000 Fallback, Advance 1] (init page_one_image))) \<and>
   loadedCount (run [Advance 5000, Fire 5000 Fallback, Advance 1] (init page_one_image))
     \<le> totalCount (run [Advance 5000, Fire 5000 Fallback, Advance 1] (init page_one_image)) \<and>
   0 < length (targets (run [Advance 5000, Fire 5000 Fallback, Advance 1]
                          (init page_one_image))) \<and>
   \<not> delivered (targets (run [Advance 5000, Fire 5000 Fallback, Advance 1]
                            (init page_one_image)) ! 0) \<and>
   loadedCount (run [Advance 5000, Fire 5000 Fallback, Advance 1] (init page_one_image)) = 0 \<and>
   loadedCount (step (Settle 0 True)
                  (run [Advance 5000, Fire 5000 Fallback, Advance 1] (init page_one_image))) =
     loadedCount (run [Advance 5000, Fire 5000 Fallback, Advance 1] (init page_one_image)) + 1 \<and>
   fontsThen (run [Settle 1 False] (init page_mixed)) \<noteq> None \<and>
   loadedCount (run [Settle 1 False] (init page_mixed)) = 2 \<and>
   loadedCount (step FontsReady (run [Settle 1 False] (init page_mixed))) =
     loadedCount (run [Settle 1 False] (init page_mixed)) + 1 \<and>
   \<not> (1 < length (targets (run [Settle 1 False] (init page_mixed))) \<and>
      \<not> delivered (targets (run [Settle 1 False] (init page_mixed)) ! 1)) \<and>
   loadedCount (step (Settle 1 True) (run [Settle 1 False] (init page_mixed))) =
     loadedCount (run [Settle 1 False] (init page_mixed))"
proof -
  let ?s = "run [Advance 5000, Fire 5000 Fallback, Advance 1] (init page_one_image)"
  let ?t = "run [Settle 1 False] (init page_mixed)"
  have n: "5000 < now ?s \<and> 0 < length (targets ?s) \<and> \<not> delivered (targets ?s ! 0) \<and>
           loadedCount ?s = 0"
    by (simp add: eval_defs page_one_image_def)
  have m: "fontsThen ?t \<noteq> None \<and> loadedCount ?t = 2 \<and>
           \<not> (1 < length (targets ?t) \<and> \<not> delivered (targets ?t ! 1))"
    by (simp add: eval_defs page_mixed_def)
  from counters_invariant [where evs = "[Advance 5000, Fire 5000 Fallback, Advance 1]"
      and p = page_one_image and e = "Settle 0 True" and k = 0 and ok = True, OF refl]
    counters_invariant [where evs = "[Settle 1 False]" and p = page_mixed and k = 1
      and ok = True, OF refl] n m
  show ?thesis by blast
qed



text \<open>
  Claim C9.  In every reachable state, if a settlement can still arrive (a target is
  pending or the fonts reaction is registered) then \<open>totalCount \<ge> 1\<close>, so the division of
  line 907 has a non-zero divisor; accordingly every percentage ever computed is a finite
  number, neither Infinity nor NaN.  With \<open>totalCount = 0\<close> the constructor attaches no
  target and registers no fonts reaction; and \<open>collectResources\<close> registers the fonts
  reaction only together with the fonts descriptor, which makes \<open>totalCount \<ge> 1\<close>.
\<close>

theorem no_division_by_zero:
  assumes "s = run evs (init p)"
  shows "((k < length (targets s) \<and> \<not> delivered (targets s ! k)) \<or> fontsThen s \<noteq> None \<longrightarrow>
            1 \<le> totalCount s) \<and>
         list_all is_finite (sinkCalls s) \<and>
         (k < length (targets s) \<and> \<not> delivered (targets s ! k) \<longrightarrow>
            totalCount (step (Settle k ok) s) \<noteq> 0 \<and>
            js_quot (loadedCount (step (Settle k ok) s)) (totalCount (step (Settle k ok) s)) =
              Finite (rat_of_nat (Suc (loadedCount s)) / rat_of_nat (totalCount s))) \<and>
         (totalCount (collectResources (new_lm p)) = 0 \<longrightarrow>
            targets (init p) = [] \<and> fontsThen (init p) = None \<and> sinkCalls (init p) = []) \<and>
         (fontsThen (collectResources (new_lm p)) \<noteq> None \<longrightarrow>
            Fonts \<in> set (resources (collectResources (new_lm p))) \<and>
            1 \<le> totalCount (collectResources (new_lm p)))"
proof -
  have i: "lm_inv s" unfolding assms by (rule lm_inv_reachable)
  have a: "(k < length (targets s) \<and> \<not> delivered (targets s ! k)) \<or> fontsThen s \<noteq> None \<longrightarrow>
            1 \<le> totalCount s"
    using pending_total [OF i] by blast
  have b: "list_all is_finite (sinkCalls s)"
    unfolding progress_log(1) [OF i] by (simp add: list_all_iff)
  have c: "k < length (targets s) \<and> \<not> delivered (targets s ! k) \<longrightarrow>
            totalCount (step (Settle k ok) s) \<noteq> 0 \<and>
            js_quot (loadedCount (step (Settle k ok) s)) (totalCount (step (Settle k ok) s)) =
              Finite (rat_of_nat (Suc (loadedCount s)) / rat_of_nat (totalCount s))"
  proof (intro impI, elim conjE)
    assume k: "k < length (targets s)" and d: "\<not> delivered (targets s ! k)"
    note r = settle_reports(2,3) [OF i k d, of ok]
    from k d pending_total [OF i, of k] have "1 \<le> totalCount s" by blast
    then show "totalCount (step (Settle k ok) s) \<noteq> 0 \<and>
            js_quot (loadedCount (step (Settle k ok) s)) (totalCount (step (Settle k ok) s)) =
              Finite (rat_of_nat (Suc (loadedCount s)) / rat_of_nat (totalCount s))"
      unfolding r by (simp add: js_quot_def)
  qed
  have d: "totalCount (collectResources (new_lm p)) = 0 \<longrightarrow>
            targets (init p) = [] \<and> fontsThen (init p) = None \<and> sinkCalls (init p) = []"
    using init_empty_fields(5,6,7) [of p] by blast
  have e: "fontsThen (collectResources (new_lm p)) \<noteq> None \<longrightarrow>
            Fonts \<in> set (resources (collectResources (new_lm p))) \<and>
            1 \<le> totalCount (collectResources (new_lm p))"
    by (simp add: collected_fields discovered_def)
  from a b c d e show ?thesis by blast
qed

theorem no_division_by_zero_witness:
  "0 < length (targets (run [] (init page_one_image))) \<and>
   \<not> delivered (targets (run [] (init page_one_image)) ! 0) \<and>
   1 \<le> totalCount (run [] (init page_one_image)) \<and>
   totalCount (step (Settle 0 False) (run [] (init page_one_image))) \<noteq> 0 \<and>
   totalCount (collectResources (new_lm page_empty)) = 0 \<and> targets (init page_empty) = [] \<and>
   fontsThen (collectResources (new_lm page_mixed)) \<noteq> None \<and>
   Fonts \<in> set (resources (collectResources (new_lm page_mixed)))"
proof -
  have e: "0 < length (targets (run [] (init page_one_image))) \<and>
           \<not> delivered (targets (run [] (init page_one_image)) ! 0)"
    by (simp add: eval_defs page_one_image_def)
  have z: "totalCount (collectResources (new_lm page_empty)) = 0"
    by (simp add: collectResources_def new_lm_def page_empty_def)
  have f: "fontsThen (collectResources (new_lm page_mixed)) \<noteq> None"
    by (simp add: collectResources_def new_lm_def page_mixed_def Let_def)
  from no_division_by_zero [where evs = "[]" and p = page_one_image and k = 0 and ok = False,
      OF refl]
    no_division_by_zero [where evs = "[]" and p = page_empty, OF refl]
    no_division_by_zero [where evs = "[]" and p = page_mixed, OF refl] e z f
  show ?thesis by blast
qed

text \<open>
  Claim C10.  For every progress value between 0 and 100 the index that \<open>updateProgress\<close>
  computes, \<open>Math.floor((progress / 100) * 3)\<close>, is one of 0, 1, 2, 3, so it selects an
  element of the four-element message array; that element is a non-empty string, so the
  \<open>|| 'Loading...'\<close> alternative is not taken and the status text becomes the selected
  milestone message.
\<close>

theorem status_message_in_bounds:
  assumes "0 \<le> q" and "q \<le> 100"
  shows "messageIndex (Finite q) = Finite (rat_of_int \<lfloor>3 * q / 100\<rfloor>) \<and>
         0 \<le> \<lfloor>3 * q / 100\<rfloor> \<and> \<lfloor>3 * q / 100\<rfloor> \<le> 3 \<and>
         js_index messages (messageIndex (Finite q)) =
           Some (messages ! nat \<lfloor>3 * q / 100\<rfloor>) \<and>
         js_or (js_index messages (messageIndex (Finite q))) ''Loading...'' =
           messages ! nat \<lfloor>3 * q / 100\<rfloor> \<and>
         js_or (js_index messages (messageIndex (Finite q))) ''Loading...'' \<noteq> ''Loading...'' \<and>
         (loadingText s \<longrightarrow>
            statusText (updateProgress (Finite q) s) =
              Some (messages ! nat \<lfloor>3 * q / 100\<rfloor>))"
proof -
  let ?i = "\<lfloor>3 * q / 100\<rfloor>"
  have len: "length messages = 4" by (simp add: messages_def)
  have mi: "messageIndex (Finite q) = Finite (rat_of_int ?i)"
    by (simp add: messageIndex_def len)
  have lo: "0 \<le> ?i" and hi: "?i \<le> 3"
    using index_floor_bounds [OF assms] by blast+
  have idx: "js_index messages (Finite (rat_of_int ?i)) = Some (messages ! nat ?i)"
    using lo hi by (simp add: len)
  from messages_nth_cases [OF lo hi]
  have ne: "messages ! nat ?i \<noteq> []" and nl: "messages ! nat ?i \<noteq> ''Loading...''"
    by blast+
  have jo: "js_or (js_index messages (messageIndex (Finite q))) ''Loading...'' = messages ! nat ?i"
    unfolding mi idx using ne by simp
  have st: "loadingText s \<longrightarrow>
      statusText (updateProgress (Finite q) s) = Some (messages ! nat ?i)"
    unfolding updateProgress_def Let_def jo by simp
  show ?thesis
    unfolding jo using mi lo hi idx nl st by (simp del: js_index.simps js_or.simps)
qed

theorem status_message_in_bounds_witness:
  "(0::rat) \<le> 50 \<and> (50::rat) \<le> 100 \<and> messageIndex (Finite 50) = Finite 1 \<and>
   js_or (js_index messages (messageIndex (Finite 50))) ''Loading...'' = ''Preparing models...'' \<and>
   loadingText (init \<lparr>hasLoadingScreen = True, hasProgressBar = True, hasLoadingText = True,
         imgs = [], links = [], hasFonts = False, heroes = 0\<rparr>) \<and>
   statusText (updateProgress (Finite 50) (init \<lparr>hasLoadingScreen = True, hasProgressBar = True, hasLoadingText = True,
         imgs = [], links = [], hasFonts = False, heroes = 0\<rparr>)) = Some ''Preparing models...''"
proof -
  have a: "(0::rat) \<le> 50" and b: "(50::rat) \<le> 100" by simp_all
  have f: "\<lfloor>3 / 2 :: rat\<rfloor> = 1" by (simp add: floor_eq_iff)
  have l: "loadingText (init \<lparr>hasLoadingScreen = True, hasProgressBar = True, hasLoadingText = True,
         imgs = [], links = [], hasFonts = False, heroes = 0\<rparr>)"
    by (simp add: init_def new_lm_def collectResources_def startLoading_def completeLoading_def
        setTimeout_def Let_def)
  show ?thesis
    using status_message_in_bounds [OF a b, of "init \<lparr>hasLoadingScreen = True, hasProgressBar = True, hasLoadingText = True,
         imgs = [], links = [], hasFonts = False, heroes = 0\<rparr>"] l
    by (simp add: f messages_def)
qed

end
